theory Spec2Isabelle
  imports Main "HOL-Library.Char_ord"
begin

section \<open>The state graph of \<open>regex/automaton.h\<close>\<close>

text \<open>
  The automaton of \<open>Re::Automaton\<close> is a graph of heap-allocated states that
  point at each other. The embedding keeps the pointers: a state handle \<open>StateT *\<close> is
  a value of type \<open>ptr\<close>, \<open>None\<close> for \<open>nullptr\<close> and \<open>Some i\<close> for the \<open>i\<close>-th state that
  \<open>createState\<close> allocated; the store is the list of the states allocated so far.
  Dereferencing \<open>nullptr\<close>, reading an uninitialised local, and indexing a group buffer
  outside \<open>[0, maxNumGroups)\<close> are undefined behaviour in the source; here each is a
  value of type \<open>error\<close>.
\<close>

datatype error =
    NullDereference
  | InvalidPointer
  | OutOfBounds
  | UninitialisedRead
  | CheckFailed

definition andThen :: "error + 'x \<Rightarrow> ('x \<Rightarrow> error + 'y) \<Rightarrow> error + 'y" where
  "andThen m f = (case m of Inl e \<Rightarrow> Inl e | Inr x \<Rightarrow> f x)"

type_synonym ptr = "nat option"

text \<open>
  Modelled from the spec: the state kinds and the edge lists of \<open>StateBase\<close>
  (\<open>regex/state.h\<close> is not among the sources). Section 3 of the specification gives a
  state a kind, its outgoing transitions ordered by insertion with duplicates allowed,
  and its incoming transitions kept in sync; section 4.1 lists the kinds. The lookahead
  and macro kinds, which carry a sub-automaton, are left out: no operation modelled
  below creates them.
\<close>

datatype 'a StateKind =
    Epsilon
  | Any
  | Symbol 'a
  | Range 'a 'a
  | Class "'a \<Rightarrow> bool"

record 'a StateBase =
  kind :: "'a StateKind"
  nextStates :: "nat list"
  prevStates :: "nat list"

record 'a Automaton =
  heap :: "'a StateBase list"
  allocatedStates :: "nat list"
  startState :: ptr
  acceptedState :: ptr

definition newState :: "'a StateKind \<Rightarrow> 'a StateBase" where
  "newState k = \<lparr>kind = k, nextStates = [], prevStates = []\<rparr>"

text \<open>\<open>Automaton::createState\<close>: allocate and construct, return the handle.\<close>

definition createState :: "'a StateKind \<Rightarrow> 'a Automaton \<Rightarrow> nat \<times> 'a Automaton" where
  "createState k a = (length (heap a), a\<lparr>heap := heap a @ [newState k]\<rparr>)"

text \<open>
  The constructor \<open>Automaton::Automaton()\<close>: both handles start as \<open>nullptr\<close>, then the
  start and the accepted state are created with \<open>createState\<close>, so neither enters
  \<open>allocatedStates\<close>.
\<close>

definition Automaton_new :: "'a Automaton" where
  "Automaton_new =
     (let a0 = \<lparr>heap = [], allocatedStates = [], startState = None, acceptedState = None\<rparr>;
          (s, a1) = createState Epsilon a0;
          a2 = a1\<lparr>startState := Some s\<rparr>;
          (t, a3) = createState Epsilon a2
      in a3\<lparr>acceptedState := Some t\<rparr>)"

text \<open>\<open>Automaton::pushState\<close>: create a state and append it to \<open>allocatedStates\<close>.\<close>

definition Automaton_pushState :: "'a StateKind \<Rightarrow> 'a Automaton \<Rightarrow> nat \<times> 'a Automaton" where
  "Automaton_pushState k a =
     (let (s, a1) = createState k a
      in (s, a1\<lparr>allocatedStates := allocatedStates a1 @ [s]\<rparr>))"

text \<open>
  Modelled from the spec: \<open>StateBase::addNextState\<close> (\<open>regex/state.h\<close> is not among the
  sources). \<open>u->addNextState(v)\<close> appends the edge \<open>u \<rightarrow> v\<close> to the outgoing transitions
  of \<open>u\<close> and the reciprocal back-edge to the incoming transitions of \<open>v\<close> (section 3:
  for every edge a reciprocal back-edge exists), and returns \<open>v\<close>, as the chained calls
  of the builder require. Both handles are dereferenced.
\<close>

definition deref :: "ptr \<Rightarrow> 'a Automaton \<Rightarrow> error + nat" where
  "deref p a =
     (case p of
        None \<Rightarrow> Inl NullDereference
      | Some i \<Rightarrow> if i < length (heap a) then Inr i else Inl InvalidPointer)"

definition linkStates :: "nat \<Rightarrow> nat \<Rightarrow> 'a StateBase list \<Rightarrow> 'a StateBase list" where
  "linkStates i j h =
     (let h1 = h[i := (h ! i)\<lparr>nextStates := nextStates (h ! i) @ [j]\<rparr>]
      in h1[j := (h1 ! j)\<lparr>prevStates := prevStates (h1 ! j) @ [i]\<rparr>])"

definition addNextState :: "ptr \<Rightarrow> ptr \<Rightarrow> 'a Automaton \<Rightarrow> error + (ptr \<times> 'a Automaton)" where
  "addNextState u v a =
     andThen (deref u a) (\<lambda>i.
     andThen (deref v a) (\<lambda>j.
       Inr (v, a\<lparr>heap := linkStates i j (heap a)\<rparr>)))"

section \<open>The builder\<close>

text \<open>
  \<open>AutomatonBuilder\<close> holds a reference to the automaton it builds, the current state,
  the two group buffers \<open>groupStart\<close> and \<open>groupEnd\<close> of \<open>maxNumGroups = 127\<close> handles
  each, and \<open>currentGroup\<close>, an \<open>int8\<close>. The record holds the automaton itself; the
  buffers are functions from the index, read and written through \<open>frameRead\<close> and
  \<open>frameWrite\<close>, which refuse an index outside the array.
\<close>

record 'a AutomatonBuilder =
  automaton :: "'a Automaton"
  currentState :: ptr
  groupStart :: "nat \<Rightarrow> ptr"
  groupEnd :: "nat \<Rightarrow> ptr"
  currentGroup :: int

definition maxNumGroups :: int where
  "maxNumGroups = 127"

definition int8 :: "int \<Rightarrow> int" where
  "int8 x = (x + 128) mod 256 - 128"

definition frameRead :: "(nat \<Rightarrow> ptr) \<Rightarrow> int \<Rightarrow> error + ptr" where
  "frameRead buf i = (if 0 \<le> i \<and> i < maxNumGroups then Inr (buf (nat i)) else Inl OutOfBounds)"

definition frameWrite :: "(nat \<Rightarrow> ptr) \<Rightarrow> int \<Rightarrow> ptr \<Rightarrow> error + (nat \<Rightarrow> ptr)" where
  "frameWrite buf i p =
     (if 0 \<le> i \<and> i < maxNumGroups then Inr (buf(nat i := p)) else Inl OutOfBounds)"

text \<open>
  The constructor: \<open>groupStart{inAutomaton.startState}\<close> and
  \<open>groupEnd{inAutomaton.acceptedState}\<close> initialise element 0 of each array; the
  elements without an initialiser are value-initialised, that is \<open>nullptr\<close>.
\<close>

definition AutomatonBuilder_new :: "'a Automaton \<Rightarrow> 'a AutomatonBuilder" where
  "AutomatonBuilder_new inAutomaton =
     \<lparr>automaton = inAutomaton,
      currentState = startState inAutomaton,
      groupStart = (\<lambda>_. None)(0 := startState inAutomaton),
      groupEnd = (\<lambda>_. None)(0 := acceptedState inAutomaton),
      currentGroup = 1\<rparr>"

text \<open>\<open>AutomatonBuilder::pushState<StateAnyT>(args)\<close>.\<close>

definition pushState :: "'a StateKind \<Rightarrow> 'a AutomatonBuilder \<Rightarrow> error + 'a AutomatonBuilder" where
  "pushState k b =
     (let (epsilon, a1) = Automaton_pushState Epsilon (automaton b);
          (state, a2) = Automaton_pushState k a1
      in andThen (addNextState (currentState b) (Some epsilon) a2) (\<lambda>(e, a3).
         andThen (addNextState e (Some state) a3) (\<lambda>(_, a4).
         andThen (frameWrite (groupStart b) (currentGroup b) (Some epsilon)) (\<lambda>gs.
         andThen (frameWrite (groupEnd b) (currentGroup b) (Some state)) (\<lambda>ge.
           Inr (b\<lparr>automaton := a4, currentState := Some state,
                   groupStart := gs, groupEnd := ge\<rparr>))))))"

text \<open>
  \<open>AutomatonBuilder::beginGroup()\<close>. The guard compares the \<open>int8\<close> \<open>currentGroup\<close> with
  the unsigned \<open>maxNumGroups - 1\<close>, so a negative \<open>currentGroup\<close> converts to a large
  unsigned value and fails it. The \<open>else\<close> branch is empty (\<open>// TODO: Error\<close>).
\<close>

definition beginGroup :: "'a AutomatonBuilder \<Rightarrow> error + 'a AutomatonBuilder" where
  "beginGroup b =
     (let (startSt, a1) = Automaton_pushState Epsilon (automaton b);
          (endSt, a2) = Automaton_pushState Epsilon a1
      in andThen (addNextState (currentState b) (Some startSt) a2) (\<lambda>(_, a3).
           if 0 \<le> currentGroup b \<and> currentGroup b < maxNumGroups - 1
           then Inr (b\<lparr>automaton := a3, currentState := Some startSt,
                        groupStart := (groupStart b)(nat (currentGroup b) := Some startSt),
                        groupEnd := (groupEnd b)(nat (currentGroup b) := Some endSt),
                        currentGroup := int8 (currentGroup b + 1)\<rparr>)
           else Inr (b\<lparr>automaton := a3, currentState := Some startSt\<rparr>)))"

text \<open>\<open>AutomatonBuilder::endGroup()\<close>. The \<open>else\<close> branch is empty (\<open>// TODO: Error\<close>).\<close>

definition endGroup :: "'a AutomatonBuilder \<Rightarrow> error + 'a AutomatonBuilder" where
  "endGroup b =
     (if currentGroup b > 0
      then andThen (frameRead (groupEnd b) (currentGroup b - 1)) (\<lambda>endSt.
           andThen (addNextState (currentState b) endSt (automaton b)) (\<lambda>(_, a1).
             Inr (b\<lparr>automaton := a1, currentState := endSt,
                     currentGroup := int8 (currentGroup b - 1)\<rparr>)))
      else Inr b)"

text \<open>\<open>AutomatonBuilder::pushBranch()\<close>.\<close>

definition pushBranch :: "'a AutomatonBuilder \<Rightarrow> error + 'a AutomatonBuilder" where
  "pushBranch b =
     andThen (frameRead (groupEnd b) (currentGroup b - 1)) (\<lambda>endSt.
     andThen (addNextState (currentState b) endSt (automaton b)) (\<lambda>(_, a1).
     andThen (frameRead (groupStart b) (currentGroup b - 1)) (\<lambda>startSt.
       Inr (b\<lparr>automaton := a1, currentState := startSt\<rparr>))))"

text \<open>\<open>AutomatonBuilder::pushSkip()\<close>.\<close>

definition pushSkip :: "'a AutomatonBuilder \<Rightarrow> error + 'a AutomatonBuilder" where
  "pushSkip b =
     (let (epsilon, a1) = Automaton_pushState Epsilon (automaton b)
      in andThen (addNextState (currentState b) (Some epsilon) a1) (\<lambda>(_, a2).
         andThen (frameRead (groupStart b) (currentGroup b)) (\<lambda>startSt.
         andThen (addNextState startSt (Some epsilon) a2) (\<lambda>(_, a3).
           Inr (b\<lparr>automaton := a3, currentState := Some epsilon\<rparr>)))))"

text \<open>\<open>AutomatonBuilder::pushJump()\<close>.\<close>

definition pushJump :: "'a AutomatonBuilder \<Rightarrow> error + 'a AutomatonBuilder" where
  "pushJump b =
     andThen (frameRead (groupEnd b) (currentGroup b)) (\<lambda>endSt.
     andThen (frameRead (groupStart b) (currentGroup b)) (\<lambda>startSt.
     andThen (addNextState endSt startSt (automaton b)) (\<lambda>(_, a1).
       Inr (b\<lparr>automaton := a1\<rparr>))))"


section \<open>Cloning the current group\<close>

text \<open>
  Modelled from the spec: \<open>StateBase::cloneState\<close> (\<open>regex/state.h\<close> is not among the
  sources). Section 4.1: cloning into a graph deep-copies the state's own payload and
  produces a new state owned by that graph; the clone has no transitions yet.
\<close>

definition cloneState :: "nat \<Rightarrow> 'a Automaton \<Rightarrow> nat \<times> 'a Automaton" where
  "cloneState s a = Automaton_pushState (kind (heap a ! s)) a"

text \<open>
  \<open>cloneCurrentGroup\<close> is a \<open>do \<dots> while\<close> loop over a list used as a stack
  (\<open>pushBack\<close>, \<open>popBack\<close>). \<open>cloneVisit\<close> is its body: \<open>visitedStates.find\<close> writes the
  clone it finds into \<open>currentState\<close>; the successors of the visited state are read
  after the edge from \<open>prevState\<close> has been added. Nothing bounds the number of
  iterations, so the loop is a partial function: \<open>None\<close> is a loop that never exits.
\<close>

type_synonym Visit = "ptr \<times> ptr"

type_synonym 'a CloneState = "Visit list \<times> (ptr \<rightharpoonup> ptr) \<times> 'a AutomatonBuilder"

definition cloneVisit :: "ptr \<Rightarrow> Visit \<Rightarrow> 'a CloneState \<Rightarrow> error + 'a CloneState" where
  "cloneVisit endSt currVisit st =
     (let (visitQueue, visitedStates, b) = st;
          (currSt, prevSt) = currVisit
      in case visitedStates currSt of
           None \<Rightarrow>
             andThen (deref currSt (automaton b)) (\<lambda>c.
               let (clone, a1) = cloneState c (automaton b)
               in andThen (addNextState prevSt (Some clone) a1) (\<lambda>(_, a2).
                    Inr ((if currSt \<noteq> endSt
                          then visitQueue @ map (\<lambda>n. (Some n, Some clone)) (nextStates (heap a2 ! c))
                          else visitQueue),
                         visitedStates(currSt \<mapsto> Some clone),
                         b\<lparr>automaton := a2, currentState := Some clone\<rparr>)))
         | Some found \<Rightarrow>
             andThen (addNextState prevSt found (automaton b)) (\<lambda>(_, a1).
               Inr (visitQueue, visitedStates, b\<lparr>automaton := a1, currentState := found\<rparr>)))"

partial_function (option) cloneLoop ::
  "ptr \<Rightarrow> Visit \<Rightarrow> 'a CloneState \<Rightarrow> (error + 'a AutomatonBuilder) option" where
  "cloneLoop endSt currVisit st =
     (case cloneVisit endSt currVisit st of
        Inl e \<Rightarrow> Some (Inl e)
      | Inr (visitQueue, visitedStates, b) \<Rightarrow>
          if visitQueue = [] then Some (Inr b)
          else cloneLoop endSt (last visitQueue) (butlast visitQueue, visitedStates, b))"

definition cloneCurrentGroup :: "'a AutomatonBuilder \<Rightarrow> (error + 'a AutomatonBuilder) option" where
  "cloneCurrentGroup b =
     (case frameRead (groupStart b) (currentGroup b) of
        Inl e \<Rightarrow> Some (Inl e)
      | Inr startSt \<Rightarrow>
          (case frameRead (groupEnd b) (currentGroup b) of
             Inl e \<Rightarrow> Some (Inl e)
           | Inr endSt \<Rightarrow> cloneLoop endSt (startSt, currentState b) ([], Map.empty, b)))"

section \<open>Bounded and open-ended repetition\<close>

text \<open>
  \<open>AutomatonBuilder::pushRepeat(minRepeats, maxRepeats)\<close>. The local \<open>prevState\<close> is
  declared without an initialiser and assigned only inside the first loop: it is
  \<open>None\<close> until then, and reading it so is \<open>UninitialisedRead\<close>. The first loop runs
  for \<open>repeatIdx = 1, \<dots>, minRepeats - 1\<close> and the second for
  \<open>repeatIdx = minRepeats, \<dots>, maxRepeats - 1\<close>; each is a recursion on the number of
  iterations left. The macro \<open>CHECK\<close> is not among the sources; a failed check is the
  error \<open>CheckFailed\<close>.
\<close>

definition andThenP ::
  "(error + 'x) option \<Rightarrow> ('x \<Rightarrow> (error + 'y) option) \<Rightarrow> (error + 'y) option" where
  "andThenP m f = (case m of None \<Rightarrow> None | Some (Inl e) \<Rightarrow> Some (Inl e) | Some (Inr x) \<Rightarrow> f x)"

fun repeatMin ::
  "nat \<Rightarrow> ptr option \<times> 'a AutomatonBuilder \<Rightarrow> (error + ptr option \<times> 'a AutomatonBuilder) option" where
  "repeatMin 0 st = Some (Inr st)"
| "repeatMin (Suc n) (prevSt, b) =
     (let (e, a1) = Automaton_pushState Epsilon (automaton b)
      in andThenP (Some (addNextState (currentState b) (Some e) a1)) (\<lambda>(p, a2).
         andThenP (cloneCurrentGroup (b\<lparr>automaton := a2, currentState := p\<rparr>)) (\<lambda>b1.
           repeatMin n (Some p, b1))))"

fun repeatMax :: "nat \<Rightarrow> ptr \<Rightarrow> 'a AutomatonBuilder \<Rightarrow> (error + 'a AutomatonBuilder) option" where
  "repeatMax 0 epsilon b = Some (Inr b)"
| "repeatMax (Suc n) epsilon b =
     andThenP (Some (addNextState (currentState b) epsilon (automaton b))) (\<lambda>(_, a1).
     andThenP (cloneCurrentGroup (b\<lparr>automaton := a1\<rparr>)) (\<lambda>b1.
       repeatMax n epsilon b1))"

definition pushRepeat :: "int \<Rightarrow> int \<Rightarrow> 'a AutomatonBuilder \<Rightarrow> (error + 'a AutomatonBuilder) option" where
  "pushRepeat minRepeats maxRepeats b =
     (let (epsilon, a1) = Automaton_pushState Epsilon (automaton b)
      in andThenP (repeatMin (nat (minRepeats - 1)) (None, b\<lparr>automaton := a1\<rparr>)) (\<lambda>(prevSt, b1).
         andThenP
           (if maxRepeats = 0
            then (case prevSt of
                    None \<Rightarrow> Some (Inl UninitialisedRead)
                  | Some p \<Rightarrow>
                      Some (andThen (addNextState (currentState b1) p (automaton b1)) (\<lambda>(_, a2).
                        Inr (b1\<lparr>automaton := a2\<rparr>))))
            else if minRepeats \<le> maxRepeats
            then repeatMax (nat (maxRepeats - minRepeats)) (Some epsilon) b1
            else Some (Inl CheckFailed)) (\<lambda>b2.
         Some (andThen (addNextState (currentState b2) (Some epsilon) (automaton b2)) (\<lambda>(p, a3).
               andThen (frameWrite (groupEnd b2) (currentGroup b2) p) (\<lambda>ge.
                 Inr (b2\<lparr>automaton := a3, currentState := p, groupEnd := ge\<rparr>)))))))"

section \<open>The optimizer\<close>

text \<open>
  Modelled from the spec: \<open>StateEpsilon::mergePrevState\<close> and
  \<open>StateEpsilon::mergeNextState\<close> (\<open>regex/state.h\<close> is not among the sources).
  Section 4.3: merging \<open>E\<close> into its unique predecessor rewires each successor \<open>s\<close> of
  \<open>E\<close> so that the predecessor points at \<open>s\<close>, and deletes \<open>E\<close>; merging into the unique
  successor is symmetric. Here the transition of the predecessor to \<open>E\<close> is replaced,
  where it stands, by transitions to the successors of \<open>E\<close> (\<open>spliceStates\<close>), the
  back-edge of each successor to \<open>E\<close> by one to the predecessor (section 3 keeps
  back-edges in sync), and the deleted state keeps no transition. The source does not
  deallocate the merged state (\<open>// TODO: Dealloc state\<close>), so it stays in the store and
  in \<open>allocatedStates\<close>.
\<close>

definition spliceStates :: "nat \<Rightarrow> nat list \<Rightarrow> nat list \<Rightarrow> nat list" where
  "spliceStates e ys xs = concat (map (\<lambda>x. if x = e then ys else [x]) xs)"

definition setNext :: "nat \<Rightarrow> nat list \<Rightarrow> 'a StateBase list \<Rightarrow> 'a StateBase list" where
  "setNext i xs h = h[i := (h ! i)\<lparr>nextStates := xs\<rparr>]"

definition setPrev :: "nat \<Rightarrow> nat list \<Rightarrow> 'a StateBase list \<Rightarrow> 'a StateBase list" where
  "setPrev i xs h = h[i := (h ! i)\<lparr>prevStates := xs\<rparr>]"

definition mergePrevState :: "nat \<Rightarrow> 'a StateBase list \<Rightarrow> 'a StateBase list" where
  "mergePrevState e h =
     (let p = hd (prevStates (h ! e));
          succs = nextStates (h ! e);
          h1 = setNext p (spliceStates e succs (nextStates (h ! p))) h;
          h2 = fold (\<lambda>s g. setPrev s (spliceStates e [p] (prevStates (g ! s))) g) succs h1
      in setPrev e [] (setNext e [] h2))"

definition mergeNextState :: "nat \<Rightarrow> 'a StateBase list \<Rightarrow> 'a StateBase list" where
  "mergeNextState e h =
     (let n = hd (nextStates (h ! e));
          preds = prevStates (h ! e);
          h1 = setPrev n (spliceStates e preds (prevStates (h ! n))) h;
          h2 = fold (\<lambda>p g. setNext p (spliceStates e [n] (nextStates (g ! p))) g) preds h1
      in setNext e [] (setPrev e [] h2))"

text \<open>
  \<open>AutomatonOptimizer::removeEpsilons()\<close>: one pass over \<open>allocatedStates\<close>;
  \<open>removeEpsilon\<close> is the body of the loop for one state.
\<close>

fun isEpsilon :: "'a StateKind \<Rightarrow> bool" where
  "isEpsilon Epsilon = True"
| "isEpsilon _ = False"

definition removeEpsilon :: "nat \<Rightarrow> 'a StateBase list \<Rightarrow> 'a StateBase list" where
  "removeEpsilon s h =
     (if isEpsilon (kind (h ! s))
      then if length (prevStates (h ! s)) = 1 \<and> length (nextStates (h ! s)) > 0
           then mergePrevState s h
           else if length (nextStates (h ! s)) = 1 \<and> length (prevStates (h ! s)) > 0
           then mergeNextState s h
           else h
      else h)"

definition removeEpsilons :: "'a Automaton \<Rightarrow> 'a Automaton" where
  "removeEpsilons a = a\<lparr>heap := fold removeEpsilon (allocatedStates a) (heap a)\<rparr>"

section \<open>The pattern driver of \<open>regex/regex.cpp\<close>\<close>

text \<open>
  \<open>Regex::compile(pattern, patternLen)\<close>: one builder call for each pattern character,
  then \<open>endGroup\<close> for the main group, then the optimizer. \<open>compileSymbol\<close> is the
  \<open>switch\<close>; both parentheses are dispatched to \<open>beginGroup\<close>.
\<close>

definition compileSymbol :: "char \<Rightarrow> char AutomatonBuilder \<Rightarrow> error + char AutomatonBuilder" where
  "compileSymbol c b =
     (if c = CHR ''('' then beginGroup b
      else if c = CHR '')'' then beginGroup b
      else if c = CHR ''|'' then pushBranch b
      else if c = CHR ''+'' then pushJump b
      else if c = CHR ''.'' then pushState Any b
      else pushState (Symbol c) b)"

fun compileLoop :: "string \<Rightarrow> char AutomatonBuilder \<Rightarrow> error + char AutomatonBuilder" where
  "compileLoop [] b = Inr b"
| "compileLoop (c # cs) b = andThen (compileSymbol c b) (compileLoop cs)"

definition build :: "string \<Rightarrow> char Automaton \<Rightarrow> error + char Automaton" where
  "build pattern a =
     andThen (compileLoop pattern (AutomatonBuilder_new a)) (\<lambda>b.
     andThen (endGroup b) (\<lambda>b1. Inr (automaton b1)))"

definition compile :: "string \<Rightarrow> char Automaton \<Rightarrow> error + char Automaton" where
  "compile pattern a = andThen (build pattern a) (\<lambda>a1. Inr (removeEpsilons a1))"


section \<open>The executor\<close>

text \<open>
  Modelled from the spec: the executor (\<open>regex/executor.h\<close> and the matching functions
  of \<open>regex/state.h\<close> are not among the sources). Section 4.4: the frontier is a
  collection of state handles; it starts as the epsilon closure of the start state; a
  step at the end of the input accepts iff the accepted state is in the frontier;
  otherwise the new frontier is the epsilon closure of the successors of every
  frontier state whose kind consumes and matches the symbol at the cursor, and an empty
  new frontier rejects. Section 4.1 gives the matching rule of each kind; the zero
  symbol of the alphabet, which \<open>Any\<close> refuses, is the parameter \<open>zero\<close>.
\<close>

fun matchSymbol :: "'a::ord \<Rightarrow> 'a StateKind \<Rightarrow> 'a \<Rightarrow> bool" where
  "matchSymbol zero Epsilon s = False"
| "matchSymbol zero Any s = (s \<noteq> zero)"
| "matchSymbol zero (Symbol c) s = (s = c)"
| "matchSymbol zero (Range lo hi) s = (lo \<le> s \<and> s \<le> hi)"
| "matchSymbol zero (Class p) s = p s"

definition consume :: "'a::ord \<Rightarrow> 'a StateBase list \<Rightarrow> nat \<Rightarrow> 'a \<Rightarrow> nat list" where
  "consume zero h u s = (if matchSymbol zero (kind (h ! u)) s then nextStates (h ! u) else [])"

text \<open>
  The epsilon closure as a depth-first search: \<open>todo\<close> are the states still to enter,
  \<open>seen\<close> the states entered. Only the successors of an epsilon state are followed.
\<close>

function epsClosure :: "'a StateBase list \<Rightarrow> nat list \<Rightarrow> nat list \<Rightarrow> nat list" where
  "epsClosure h [] seen = seen"
| "epsClosure h (u # todo) seen =
     (if u \<in> set seen \<or> \<not> u < length h then epsClosure h todo seen
      else epsClosure h
             ((if isEpsilon (kind (h ! u)) then nextStates (h ! u) else []) @ todo) (u # seen))"
  by pat_completeness auto
termination
proof (relation "measures [\<lambda>(h, todo, seen). card ({..<length h} - set seen),
                           \<lambda>(h, todo, seen). length todo]")
  show "wf (measures [\<lambda>(h :: 'a StateBase list, todo :: nat list, seen :: nat list).
                        card ({..<length h} - set seen),
                      \<lambda>(h, todo, seen). length todo])"
    by simp
next
  fix h :: "'a StateBase list" and u :: nat and todo seen :: "nat list"
  assume "u \<in> set seen \<or> \<not> u < length h"
  then show "((h, todo, seen), (h, u # todo, seen))
      \<in> measures [\<lambda>(h, todo, seen). card ({..<length h} - set seen),
                  \<lambda>(h, todo, seen). length todo]"
    by simp
next
  fix h :: "'a StateBase list" and u :: nat and todo seen :: "nat list"
  assume "\<not> (u \<in> set seen \<or> \<not> u < length h)"
  then have "{..<length h} - set (u # seen) \<subset> {..<length h} - set seen"
    by auto
  then have "card ({..<length h} - set (u # seen)) < card ({..<length h} - set seen)"
    by (intro psubset_card_mono) auto
  then show "((h, (if isEpsilon (kind (h ! u)) then nextStates (h ! u) else []) @ todo, u # seen),
       (h, u # todo, seen))
      \<in> measures [\<lambda>(h, todo, seen). card ({..<length h} - set seen),
                  \<lambda>(h, todo, seen). length todo]"
    by simp
qed

text \<open>
  \<open>executorRun\<close> is the loop of \<open>Automaton::acceptString\<close> over \<open>Executor::step\<close>: one
  equation for a step at the end of the input and one for a step that consumes a
  symbol.
\<close>

fun executorRun :: "'a::ord \<Rightarrow> 'a StateBase list \<Rightarrow> nat \<Rightarrow> nat list \<Rightarrow> 'a list \<Rightarrow> bool" where
  "executorRun zero h acc frontier [] = (acc \<in> set frontier)"
| "executorRun zero h acc frontier (s # input) =
     (let frontier' = epsClosure h (concat (map (\<lambda>u. consume zero h u s) frontier)) []
      in if frontier' = [] then False else executorRun zero h acc frontier' input)"

definition acceptString :: "'a::ord \<Rightarrow> 'a Automaton \<Rightarrow> 'a list \<Rightarrow> error + bool" where
  "acceptString zero a input =
     andThen (deref (startState a) a) (\<lambda>s.
     andThen (deref (acceptedState a) a) (\<lambda>t.
       Inr (executorRun zero (heap a) t (epsClosure (heap a) [s] []) input)))"

text \<open>\<open>Regex::accept\<close> on the byte alphabet: the zero symbol is the character 0.\<close>

definition accept :: "char Automaton \<Rightarrow> string \<Rightarrow> error + bool" where
  "accept a input = acceptString (CHR 0x00) a input"

section \<open>Sequences of builder calls\<close>

text \<open>
  A program that drives the builder is a list of calls of its public operations;
  \<open>applyOps\<close> runs them in order and stops at the first one that fails or does not
  return.
\<close>

datatype 'a BuilderOp =
    PushState "'a StateKind"
  | BeginGroup
  | EndGroup
  | PushBranch
  | PushSkip
  | PushJump
  | PushRepeat int int

fun applyOp :: "'a BuilderOp \<Rightarrow> 'a AutomatonBuilder \<Rightarrow> (error + 'a AutomatonBuilder) option" where
  "applyOp (PushState k) b = Some (pushState k b)"
| "applyOp BeginGroup b = Some (beginGroup b)"
| "applyOp EndGroup b = Some (endGroup b)"
| "applyOp PushBranch b = Some (pushBranch b)"
| "applyOp PushSkip b = Some (pushSkip b)"
| "applyOp PushJump b = Some (pushJump b)"
| "applyOp (PushRepeat minRepeats maxRepeats) b = pushRepeat minRepeats maxRepeats b"

fun applyOps :: "'a BuilderOp list \<Rightarrow> 'a AutomatonBuilder \<Rightarrow> (error + 'a AutomatonBuilder) option" where
  "applyOps [] b = Some (Inr b)"
| "applyOps (x # xs) b = andThenP (applyOp x b) (applyOps xs)"

text \<open>
  The states that one pass of \<open>removeEpsilons\<close> merges away, in the order of the pass:
  the states on which the loop calls \<open>mergePrevState\<close> or \<open>mergeNextState\<close>.
\<close>

fun removedStates :: "nat list \<Rightarrow> 'a StateBase list \<Rightarrow> nat list" where
  "removedStates [] h = []"
| "removedStates (s # ss) h =
     (if isEpsilon (kind (h ! s)) \<and>
         (length (prevStates (h ! s)) = 1 \<and> length (nextStates (h ! s)) > 0 \<or>
          length (nextStates (h ! s)) = 1 \<and> length (prevStates (h ! s)) > 0)
      then s # removedStates ss (removeEpsilon s h)
      else removedStates ss (removeEpsilon s h))"


section \<open>Well-formed automata\<close>

text \<open>
  The invariant of the state graph (section 3 of the specification): every transition
  leads to a state of the store, and every outgoing transition \<open>u \<rightarrow> v\<close> has its
  back-edge in the incoming transitions of \<open>v\<close>. The set \<open>D\<close> holds the states whose
  back-edges are no longer tracked, the states already handled by the optimizer's pass.
  A well-formed automaton has the start and the accepted state in the first two cells
  of the store, both epsilon states, and every other state in \<open>allocatedStates\<close>, in
  the order of allocation.
\<close>

definition syncHeap :: "nat set \<Rightarrow> 'a StateBase list \<Rightarrow> bool" where
  "syncHeap D h \<longleftrightarrow>
     (\<forall>u<length h.
        (\<forall>v\<in>set (nextStates (h ! u)). v < length h \<and> (v \<notin> D \<longrightarrow> u \<in> set (prevStates (h ! v)))) \<and>
        (\<forall>v\<in>set (prevStates (h ! u)). v < length h))"

definition wfAutomaton :: "'a Automaton \<Rightarrow> bool" where
  "wfAutomaton a \<longleftrightarrow>
     startState a = Some 0 \<and> acceptedState a = Some 1 \<and> 2 \<le> length (heap a) \<and>
     kind (heap a ! 0) = Epsilon \<and> kind (heap a ! 1) = Epsilon \<and>
     allocatedStates a = [2..<length (heap a)] \<and> syncHeap {} (heap a)"


section \<open>Acceptance as a relation\<close>

text \<open>
  \<open>accepts zero h t u w\<close>: from the active state \<open>u\<close> the input \<open>w\<close> can be consumed so
  that the state \<open>t\<close> is active at its end. An epsilon state passes activity to its
  successors without consuming; a state of any other kind consumes one symbol that it
  matches. The executor of section 4.4 computes this relation.
\<close>

inductive accepts :: "'a::ord \<Rightarrow> 'a StateBase list \<Rightarrow> nat \<Rightarrow> nat \<Rightarrow> 'a list \<Rightarrow> bool"
  for zero :: 'a and h :: "'a StateBase list" and t :: nat where
  accepts_end: "accepts zero h t t []"
| accepts_eps: "u < length h \<Longrightarrow> isEpsilon (kind (h ! u)) \<Longrightarrow> v \<in> set (nextStates (h ! u)) \<Longrightarrow>
     accepts zero h t v w \<Longrightarrow> accepts zero h t u w"
| accepts_sym: "u < length h \<Longrightarrow> matchSymbol zero (kind (h ! u)) c \<Longrightarrow>
     v \<in> set (nextStates (h ! u)) \<Longrightarrow> accepts zero h t v w \<Longrightarrow> accepts zero h t u (c # w)"


text \<open>
  The epsilon transitions of a store, and the stores whose transitions stay inside.
\<close>

definition epsEdges :: "'a StateBase list \<Rightarrow> (nat \<times> nat) set" where
  "epsEdges h = {(u, v). u < length h \<and> isEpsilon (kind (h ! u)) \<and> v \<in> set (nextStates (h ! u))}"

definition nextBounded :: "'a StateBase list \<Rightarrow> bool" where
  "nextBounded h \<longleftrightarrow> (\<forall>u<length h. \<forall>v\<in>set (nextStates (h ! u)). v < length h)"


text \<open>
  \<open>bypassed e h h'\<close>: the store \<open>h'\<close> is \<open>h\<close> with the epsilon state \<open>e\<close> cut out: \<open>e\<close> has
  no transition left, and every other state that had a transition to \<open>e\<close> has
  transitions to the successors of \<open>e\<close> instead.
\<close>

definition bypassed :: "nat \<Rightarrow> 'a StateBase list \<Rightarrow> 'a StateBase list \<Rightarrow> bool" where
  "bypassed e h h' \<longleftrightarrow>
     length h' = length h \<and> e < length h \<and> isEpsilon (kind (h ! e)) \<and>
     nextStates (h' ! e) = [] \<and>
     (\<forall>u<length h. kind (h' ! u) = kind (h ! u)) \<and>
     (\<forall>u<length h. u \<noteq> e \<longrightarrow>
        set (nextStates (h' ! u)) =
          (set (nextStates (h ! u)) - {e}) \<union>
          (if e \<in> set (nextStates (h ! u)) then set (nextStates (h ! e)) else {}))"


section \<open>Literal patterns\<close>

text \<open>
  A literal character is one that the \<open>switch\<close> of \<open>Regex::compile\<close> sends to its
  \<open>default\<close> branch.
\<close>

definition isLiteral :: "char \<Rightarrow> bool" where
  "isLiteral c \<longleftrightarrow> c \<notin> {CHR ''('', CHR '')'', CHR ''|'', CHR ''+'', CHR ''.''}"


text \<open>
  \<open>emits zero k v\<close>: activity that leaves a state of kind \<open>k\<close> consumes the word \<open>v\<close>,
  the empty word for an epsilon state and one matching symbol otherwise.
  \<open>leaves zero h x w\<close>: the word \<open>w\<close> is consumed on some way from the start state, cell 0,
  to the state \<open>x\<close> and out of it.
\<close>

definition emits :: "'a::ord \<Rightarrow> 'a StateKind \<Rightarrow> 'a list \<Rightarrow> bool" where
  "emits zero k v \<longleftrightarrow> isEpsilon k \<and> v = [] \<or> (\<exists>c. matchSymbol zero k c \<and> v = [c])"


definition leaves :: "'a::ord \<Rightarrow> 'a StateBase list \<Rightarrow> nat \<Rightarrow> 'a list \<Rightarrow> bool" where
  "leaves zero h x w \<longleftrightarrow>
     (\<exists>w1 v. accepts zero h x 0 w1 \<and> emits zero (kind (h ! x)) v \<and> w = w1 @ v)"


text \<open>
  \<open>extends N h h'\<close>: the store \<open>h'\<close> is \<open>h\<close> with transitions added that lead into the set
  \<open>N\<close> of states, from which no transition leads out again.
\<close>

definition extends :: "nat set \<Rightarrow> 'a StateBase list \<Rightarrow> 'a StateBase list \<Rightarrow> bool" where
  "extends N h h' \<longleftrightarrow>
     length h \<le> length h' \<and>
     (\<forall>u<length h'. u \<in> N \<longrightarrow> set (nextStates (h' ! u)) \<subseteq> N) \<and>
     (\<forall>u<length h'. u \<notin> N \<longrightarrow> u < length h \<and> kind (h' ! u) = kind (h ! u) \<and>
         set (nextStates (h' ! u)) - N = set (nextStates (h ! u))) \<and>
     (\<forall>u<length h. u \<in> N \<longrightarrow> nextStates (h ! u) = [])"


text \<open>
  The store after \<open>pushState\<close> of kind \<open>k\<close> with the current state \<open>c\<close>, and the
  invariant of the builder while the driver reads a literal pattern: \<open>S\<close> is the part
  of the pattern read so far, the current state has no transition yet, the accepted
  state has no transition at all, and exactly the word \<open>S\<close> leaves the current state.
\<close>

definition pushedHeap :: "nat \<Rightarrow> 'a StateKind \<Rightarrow> 'a StateBase list \<Rightarrow> 'a StateBase list" where
  "pushedHeap c k h =
     linkStates (length h) (Suc (length h))
       (linkStates c (length h) (h @ [newState Epsilon, newState k]))"


definition literalInv :: "'a::ord \<Rightarrow> 'a list \<Rightarrow> 'a AutomatonBuilder \<Rightarrow> bool" where
  "literalInv zero S b \<longleftrightarrow>
     wfAutomaton (automaton b) \<and> currentGroup b = 1 \<and> groupEnd b 0 = Some 1 \<and>
     nextStates (heap (automaton b) ! 1) = [] \<and>
     (\<forall>u<length (heap (automaton b)). 1 \<notin> set (nextStates (heap (automaton b) ! u))) \<and>
     (\<exists>c. currentState b = Some c \<and> c < length (heap (automaton b)) \<and> c \<noteq> 1 \<and>
          nextStates (heap (automaton b) ! c) = [] \<and>
          (\<forall>w. leaves zero (heap (automaton b)) c w \<longleftrightarrow> w = S))"


text \<open>
  A state of the loop of \<open>cloneCurrentGroup\<close> from which the loop never exits: the
  state to visit is the third-last state of the store and is not the end of the group,
  the last three states form a chain of single transitions, none of them has been
  visited, and the previous state is the last state of the store.
\<close>

definition cloneRunaway :: "Visit \<Rightarrow> 'a CloneState \<Rightarrow> bool" where
  "cloneRunaway cv st =
     (case st of (q, vis, b) \<Rightarrow>
        \<exists>m. 6 \<le> m \<and> length (heap (automaton b)) = m + 3 \<and>
            cv = (Some m, Some (m + 2)) \<and>
            nextStates (heap (automaton b) ! m) = [m + 1] \<and>
            nextStates (heap (automaton b) ! (m + 1)) = [m + 2] \<and>
            nextStates (heap (automaton b) ! (m + 2)) = [] \<and>
            (\<forall>i\<ge>m. vis (Some i) = None))"


section \<open>Basic facts about the store\<close>

text \<open>
  Code equations, so that the model runs on concrete patterns and inputs: the new
  automaton as a value, and the unfolding of the loop of \<open>cloneCurrentGroup\<close>.
\<close>

lemma Automaton_new_code [code]:
  "Automaton_new =
     \<lparr>heap = [\<lparr>kind = Epsilon, nextStates = [], prevStates = []\<rparr>,
              \<lparr>kind = Epsilon, nextStates = [], prevStates = []\<rparr>],
      allocatedStates = [], startState = Some 0, acceptedState = Some 1\<rparr>"
  by (simp add: Automaton_new_def createState_def newState_def)

declare cloneLoop.simps [code]

lemma deref_Some [simp]:
  "deref (Some i) a = (if i < length (heap a) then Inr i else Inl InvalidPointer)"
  by (simp add: deref_def)

lemma deref_None [simp]: "deref None a = Inl NullDereference"
  by (simp add: deref_def)

lemma andThen_Inr [simp]: "andThen (Inr x) f = f x"
  by (simp add: andThen_def)

lemma andThen_Inl [simp]: "andThen (Inl e) f = Inl e"
  by (simp add: andThen_def)

lemma andThen_eq_Inr:
  "andThen m f = Inr y \<longleftrightarrow> (\<exists>x. m = Inr x \<and> f x = Inr y)"
  by (cases m) simp_all

lemma andThenP_Some_Inr [simp]: "andThenP (Some (Inr x)) f = f x"
  by (simp add: andThenP_def)

lemma andThenP_Some_Inl [simp]: "andThenP (Some (Inl e)) f = Some (Inl e)"
  by (simp add: andThenP_def)

lemma andThenP_None [simp]: "andThenP None f = None"
  by (simp add: andThenP_def)

lemma andThenP_eq_Some_Inr:
  "andThenP m f = Some (Inr y) \<longleftrightarrow> (\<exists>x. m = Some (Inr x) \<and> f x = Some (Inr y))"
  by (auto simp: andThenP_def split: option.splits sum.splits)

lemma length_linkStates [simp]: "length (linkStates i j h) = length h"
  by (simp add: linkStates_def Let_def)

lemma nextStates_linkStates:
  "i < length h \<Longrightarrow> j < length h \<Longrightarrow>
   nextStates (linkStates i j h ! u) =
     (if u = i then nextStates (h ! i) @ [j] else nextStates (h ! u))"
  by (cases "u < length h") (simp_all add: linkStates_def Let_def nth_list_update)

lemma prevStates_linkStates:
  "i < length h \<Longrightarrow> j < length h \<Longrightarrow>
   prevStates (linkStates i j h ! u) =
     (if u = j then prevStates (h ! j) @ [i] else prevStates (h ! u))"
  by (cases "u < length h") (simp_all add: linkStates_def Let_def nth_list_update)

lemma kind_linkStates [simp]:
  "i < length h \<Longrightarrow> j < length h \<Longrightarrow> kind (linkStates i j h ! u) = kind (h ! u)"
  by (cases "u < length h") (simp_all add: linkStates_def Let_def nth_list_update)

section \<open>The builder's constructor\<close>

text \<open>
  C5, as amended. Immediately after an \<open>AutomatonBuilder\<close> is constructed on an
  automaton, the current state is the start state of the graph, frame 0 is the start
  and the accepted state of the graph, the top frame index is 1, and frame 1 holds two
  null handles: the constructor initialises element 0 of each group buffer only.
\<close>

theorem builder_construction:
  "currentState (AutomatonBuilder_new a) = startState a \<and>
   groupStart (AutomatonBuilder_new a) 0 = startState a \<and>
   groupEnd (AutomatonBuilder_new a) 0 = acceptedState a \<and>
   currentGroup (AutomatonBuilder_new a) = 1 \<and>
   groupStart (AutomatonBuilder_new a) 1 = None \<and>
   groupEnd (AutomatonBuilder_new a) 1 = None"
  by (simp add: AutomatonBuilder_new_def)

text \<open>
  C5, as stated, fails: on a freshly constructed automaton, whose start and accepted
  states are allocated, frame 1 of a new builder is not equal to frame 0.
\<close>

theorem builder_frame1_counterexample:
  "\<not> (groupStart (AutomatonBuilder_new (Automaton_new :: char Automaton)) 1 =
        groupStart (AutomatonBuilder_new (Automaton_new :: char Automaton)) 0 \<and>
      groupEnd (AutomatonBuilder_new (Automaton_new :: char Automaton)) 1 =
        groupEnd (AutomatonBuilder_new (Automaton_new :: char Automaton)) 0)"
  by (simp add: AutomatonBuilder_new_def Automaton_new_def createState_def)

section \<open>\<open>pushState\<close>\<close>

text \<open>
  C7. In a builder whose current state \<open>C\<close> is a state of the graph and whose top
  frame index \<open>g\<close> lies inside the group buffers, \<open>pushState\<close> of a kind \<open>k\<close> returns
  normally; it allocates two states, an epsilon state \<open>E\<close> and a state \<open>S\<close> of kind
  \<open>k\<close>; it appends the edge \<open>C \<rightarrow> E\<close> to the edges of \<open>C\<close> and gives \<open>E\<close> the single edge
  \<open>E \<rightarrow> S\<close>, with the back-edges; every other state is as before; the current state
  becomes \<open>S\<close>, frame \<open>g\<close> becomes \<open>(E, S)\<close>, and \<open>g\<close> is unchanged.
\<close>

theorem pushState_contract:
  assumes "currentState b = Some c" and "c < length (heap (automaton b))"
    and "0 \<le> currentGroup b" and "currentGroup b < maxNumGroups"
  shows "\<exists>b'. pushState k b = Inr b' \<and>
    length (heap (automaton b')) = length (heap (automaton b)) + 2 \<and>
    kind (heap (automaton b') ! length (heap (automaton b))) = Epsilon \<and>
    kind (heap (automaton b') ! Suc (length (heap (automaton b)))) = k \<and>
    nextStates (heap (automaton b') ! c) =
      nextStates (heap (automaton b) ! c) @ [length (heap (automaton b))] \<and>
    prevStates (heap (automaton b') ! c) = prevStates (heap (automaton b) ! c) \<and>
    kind (heap (automaton b') ! c) = kind (heap (automaton b) ! c) \<and>
    prevStates (heap (automaton b') ! length (heap (automaton b))) = [c] \<and>
    nextStates (heap (automaton b') ! length (heap (automaton b))) =
      [Suc (length (heap (automaton b)))] \<and>
    prevStates (heap (automaton b') ! Suc (length (heap (automaton b)))) =
      [length (heap (automaton b))] \<and>
    nextStates (heap (automaton b') ! Suc (length (heap (automaton b)))) = [] \<and>
    (\<forall>u < length (heap (automaton b)). u \<noteq> c \<longrightarrow>
       heap (automaton b') ! u = heap (automaton b) ! u) \<and>
    allocatedStates (automaton b') =
      allocatedStates (automaton b) @
        [length (heap (automaton b)), Suc (length (heap (automaton b)))] \<and>
    startState (automaton b') = startState (automaton b) \<and>
    acceptedState (automaton b') = acceptedState (automaton b) \<and>
    currentState b' = Some (Suc (length (heap (automaton b)))) \<and>
    groupStart b' = (groupStart b)(nat (currentGroup b) := Some (length (heap (automaton b)))) \<and>
    groupEnd b' =
      (groupEnd b)(nat (currentGroup b) := Some (Suc (length (heap (automaton b))))) \<and>
    currentGroup b' = currentGroup b"
  using assms
  by (simp add: pushState_def Automaton_pushState_def createState_def addNextState_def
      frameWrite_def newState_def nextStates_linkStates prevStates_linkStates nth_append
      linkStates_def)

theorem pushState_contract_witness:
  "\<exists>b'. pushState (Symbol CHR ''a'') (AutomatonBuilder_new Automaton_new) = Inr b' \<and>
     kind (heap (automaton b') ! 2) = Epsilon \<and>
     kind (heap (automaton b') ! 3) = Symbol CHR ''a'' \<and>
     nextStates (heap (automaton b') ! 0) = [2] \<and>
     nextStates (heap (automaton b') ! 2) = [3] \<and>
     currentState b' = Some 3 \<and> groupStart b' 1 = Some 2 \<and> groupEnd b' 1 = Some 3"
proof -
  let ?b = "AutomatonBuilder_new (Automaton_new :: char Automaton)"
  have c: "currentState ?b = Some 0" and l: "0 < length (heap (automaton ?b))"
    and g: "0 \<le> currentGroup ?b" "currentGroup ?b < maxNumGroups"
    and n: "length (heap (automaton ?b)) = 2" "nextStates (heap (automaton ?b) ! 0) = []"
    by (simp_all add: AutomatonBuilder_new_def Automaton_new_def createState_def
        maxNumGroups_def newState_def)
  from pushState_contract [OF c l g, of "Symbol CHR ''a''"] n
  show ?thesis
    by (auto simp: AutomatonBuilder_new_def eval_nat_numeral)
qed

section \<open>\<open>endGroup\<close> on an empty group stack\<close>

text \<open>
  C10. When the top frame index is 0, \<open>endGroup\<close> returns the builder as it was: the
  graph, the current state, the group buffers and the index are unchanged, and no
  error is signalled.
\<close>

theorem endGroup_empty_stack:
  "currentGroup b = 0 \<Longrightarrow> endGroup b = Inr b"
  by (simp add: endGroup_def)

theorem endGroup_empty_stack_witness:
  "\<exists>b. endGroup (AutomatonBuilder_new (Automaton_new :: char Automaton)) = Inr b \<and>
       currentGroup b = 0 \<and> endGroup b = Inr b"
proof -
  let ?b0 = "AutomatonBuilder_new (Automaton_new :: char Automaton)"
  obtain b where b: "endGroup ?b0 = Inr b" and g: "currentGroup b = 0"
    by (simp add: endGroup_def AutomatonBuilder_new_def Automaton_new_def createState_def
        frameRead_def maxNumGroups_def addNextState_def int8_def)
  from endGroup_empty_stack [OF g] b g show ?thesis by blast
qed

section \<open>Open-ended repetition with a single repeat\<close>

text \<open>
  C6 at \<open>minRepeats = 1\<close>. \<open>pushRepeat(1, 0)\<close> runs the first loop zero times, so
  \<open>prevState\<close> is never assigned, and the jump edge is added to the uninitialised
  \<open>prevState\<close>: on every builder the call reads an uninitialised handle.
\<close>

theorem pushRepeat_open_ended_once:
  "pushRepeat 1 0 b = Some (Inl UninitialisedRead)"
  by (simp add: pushRepeat_def split: prod.split)

section \<open>The builder keeps the automaton well formed\<close>

lemma wfAutomaton_new: "wfAutomaton Automaton_new"
  by (simp add: wfAutomaton_def Automaton_new_def createState_def newState_def syncHeap_def
      nth_append less_Suc_eq)

lemma syncHeap_next_bound:
  "syncHeap D h \<Longrightarrow> u < length h \<Longrightarrow> v \<in> set (nextStates (h ! u)) \<Longrightarrow> v < length h"
  unfolding syncHeap_def by blast

lemma syncHeap_back_edge:
  "syncHeap D h \<Longrightarrow> u < length h \<Longrightarrow> v \<in> set (nextStates (h ! u)) \<Longrightarrow> v \<notin> D \<Longrightarrow>
   u \<in> set (prevStates (h ! v))"
  unfolding syncHeap_def by blast

lemma syncHeap_prev_bound:
  "syncHeap D h \<Longrightarrow> u < length h \<Longrightarrow> v \<in> set (prevStates (h ! u)) \<Longrightarrow> v < length h"
  unfolding syncHeap_def by blast

lemma syncHeapI:
  assumes "\<And>u v. u < length h \<Longrightarrow> v \<in> set (nextStates (h ! u)) \<Longrightarrow> v < length h"
    and "\<And>u v. u < length h \<Longrightarrow> v \<in> set (nextStates (h ! u)) \<Longrightarrow> v \<notin> D \<Longrightarrow>
           u \<in> set (prevStates (h ! v))"
    and "\<And>u v. u < length h \<Longrightarrow> v \<in> set (prevStates (h ! u)) \<Longrightarrow> v < length h"
  shows "syncHeap D h"
  unfolding syncHeap_def using assms by blast

lemma nth_append_newState:
  "nextStates ((h @ [newState k]) ! length h) = [] \<and> prevStates ((h @ [newState k]) ! length h) = []
   \<and> kind ((h @ [newState k]) ! length h) = k"
  by (simp add: newState_def)

lemma syncHeap_append:
  assumes "syncHeap D h"
  shows "syncHeap D (h @ [newState k])"
proof (rule syncHeapI)
  fix u v
  assume u: "u < length (h @ [newState k])" and v: "v \<in> set (nextStates ((h @ [newState k]) ! u))"
  from u have "u < length h \<or> u = length h" by auto
  then have ul: "u < length h"
  proof
    assume "u = length h"
    with v nth_append_newState [of h k] show ?thesis by simp
  qed
  with v have v': "v \<in> set (nextStates (h ! u))" by (simp add: nth_append)
  from syncHeap_next_bound [OF assms ul v'] have vl: "v < length h" .
  then show "v < length (h @ [newState k])" by simp
  assume "v \<notin> D"
  from syncHeap_back_edge [OF assms ul v' this] vl
  show "u \<in> set (prevStates ((h @ [newState k]) ! v))" by (simp add: nth_append)
next
  fix u v
  assume u: "u < length (h @ [newState k])" and v: "v \<in> set (prevStates ((h @ [newState k]) ! u))"
  from u have "u < length h \<or> u = length h" by auto
  then have ul: "u < length h"
  proof
    assume "u = length h"
    with v nth_append_newState [of h k] show ?thesis by simp
  qed
  with v have v': "v \<in> set (prevStates (h ! u))" by (simp add: nth_append)
  from syncHeap_prev_bound [OF assms ul v'] show "v < length (h @ [newState k])" by simp
qed

lemma syncHeap_linkStates:
  assumes s: "syncHeap D h" and i: "i < length h" and j: "j < length h"
  shows "syncHeap D (linkStates i j h)"
proof (rule syncHeapI)
  fix u v
  assume u: "u < length (linkStates i j h)" and v: "v \<in> set (nextStates (linkStates i j h ! u))"
  then have ul: "u < length h" by simp
  from v i j have c: "v \<in> set (nextStates (h ! u)) \<or> (u = i \<and> v = j)"
    by (auto simp: nextStates_linkStates split: if_splits)
  then show "v < length (linkStates i j h)"
    using syncHeap_next_bound [OF s ul] j by auto
  assume "v \<notin> D"
  with c show "u \<in> set (prevStates (linkStates i j h ! v))"
    using syncHeap_back_edge [OF s ul] i j by (auto simp: prevStates_linkStates)
next
  fix u v
  assume u: "u < length (linkStates i j h)" and v: "v \<in> set (prevStates (linkStates i j h ! u))"
  then have ul: "u < length h" by simp
  from v i j have c: "v \<in> set (prevStates (h ! u)) \<or> (u = j \<and> v = i)"
    by (auto simp: prevStates_linkStates split: if_splits)
  then show "v < length (linkStates i j h)"
    using syncHeap_prev_bound [OF s ul] i by auto
qed

lemma Automaton_pushState_wf:
  assumes "wfAutomaton a" and "Automaton_pushState k a = (s, a')"
  shows "wfAutomaton a'"
proof -
  from assms(2) have a': "a' = a\<lparr>heap := heap a @ [newState k],
      allocatedStates := allocatedStates a @ [length (heap a)]\<rparr>"
    by (auto simp: Automaton_pushState_def createState_def)
  from assms(1) have "syncHeap {} (heap a @ [newState k])"
    by (simp add: wfAutomaton_def syncHeap_append)
  with assms(1) show ?thesis
    by (auto simp: a' wfAutomaton_def nth_append)
qed

lemma addNextState_wf:
  assumes "wfAutomaton a" and "addNextState u v a = Inr (p, a')"
  shows "wfAutomaton a'"
proof -
  from assms(2) obtain i j where ij: "i < length (heap a)" "j < length (heap a)"
    and a': "a' = a\<lparr>heap := linkStates i j (heap a)\<rparr>"
    by (auto simp: addNextState_def andThen_eq_Inr deref_def split: option.splits if_splits)
  from assms(1) ij have "syncHeap {} (linkStates i j (heap a))"
    by (simp add: wfAutomaton_def syncHeap_linkStates)
  with assms(1) ij show ?thesis
    by (simp add: a' wfAutomaton_def)
qed

lemma pushState_wf:
  assumes wf: "wfAutomaton (automaton b)" and ok: "pushState k b = Inr b'"
  shows "wfAutomaton (automaton b')"
proof -
  obtain e a1 where 1: "Automaton_pushState Epsilon (automaton b) = (e, a1)"
    by (cases "Automaton_pushState Epsilon (automaton b)")
  obtain s a2 where 2: "Automaton_pushState k a1 = (s, a2)"
    by (cases "Automaton_pushState k a1")
  from ok 1 2 obtain p a3 q a4 where 3: "addNextState (currentState b) (Some e) a2 = Inr (p, a3)"
    and 4: "addNextState p (Some s) a3 = Inr (q, a4)" and b': "automaton b' = a4"
    by (auto simp: pushState_def andThen_eq_Inr)
  from Automaton_pushState_wf [OF wf 1] have "wfAutomaton a1" .
  from Automaton_pushState_wf [OF this 2] have "wfAutomaton a2" .
  from addNextState_wf [OF this 3] have "wfAutomaton a3" .
  from addNextState_wf [OF this 4] show ?thesis by (simp add: b')
qed

lemma beginGroup_wf:
  assumes wf: "wfAutomaton (automaton b)" and ok: "beginGroup b = Inr b'"
  shows "wfAutomaton (automaton b')"
proof -
  obtain e a1 where 1: "Automaton_pushState Epsilon (automaton b) = (e, a1)"
    by (cases "Automaton_pushState Epsilon (automaton b)")
  obtain s a2 where 2: "Automaton_pushState Epsilon a1 = (s, a2)"
    by (cases "Automaton_pushState Epsilon a1")
  from ok 1 2 obtain p a3 where 3: "addNextState (currentState b) (Some e) a2 = Inr (p, a3)"
    and b': "automaton b' = a3"
    by (auto simp: beginGroup_def andThen_eq_Inr split: if_splits)
  from Automaton_pushState_wf [OF wf 1] have "wfAutomaton a1" .
  from Automaton_pushState_wf [OF this 2] have "wfAutomaton a2" .
  from addNextState_wf [OF this 3] show ?thesis by (simp add: b')
qed

lemma endGroup_wf:
  assumes wf: "wfAutomaton (automaton b)" and ok: "endGroup b = Inr b'"
  shows "wfAutomaton (automaton b')"
proof (cases "currentGroup b > 0")
  case True
  with ok obtain endSt p a1 where "addNextState (currentState b) endSt (automaton b) = Inr (p, a1)"
    and b': "automaton b' = a1"
    by (auto simp: endGroup_def andThen_eq_Inr)
  from addNextState_wf [OF wf this(1)] show ?thesis by (simp add: b')
next
  case False
  with ok wf show ?thesis by (simp add: endGroup_def)
qed

lemma pushBranch_wf:
  assumes wf: "wfAutomaton (automaton b)" and ok: "pushBranch b = Inr b'"
  shows "wfAutomaton (automaton b')"
proof -
  from ok obtain endSt p a1 where "addNextState (currentState b) endSt (automaton b) = Inr (p, a1)"
    and b': "automaton b' = a1"
    by (auto simp: pushBranch_def andThen_eq_Inr)
  from addNextState_wf [OF wf this(1)] show ?thesis by (simp add: b')
qed

lemma pushJump_wf:
  assumes wf: "wfAutomaton (automaton b)" and ok: "pushJump b = Inr b'"
  shows "wfAutomaton (automaton b')"
proof -
  from ok obtain endSt startSt p a1 where "addNextState endSt startSt (automaton b) = Inr (p, a1)"
    and b': "automaton b' = a1"
    by (auto simp: pushJump_def andThen_eq_Inr)
  from addNextState_wf [OF wf this(1)] show ?thesis by (simp add: b')
qed

lemma pushSkip_wf:
  assumes wf: "wfAutomaton (automaton b)" and ok: "pushSkip b = Inr b'"
  shows "wfAutomaton (automaton b')"
proof -
  obtain e a1 where 1: "Automaton_pushState Epsilon (automaton b) = (e, a1)"
    by (cases "Automaton_pushState Epsilon (automaton b)")
  from ok 1 obtain p a2 startSt q a3 where 2: "addNextState (currentState b) (Some e) a1 = Inr (p, a2)"
    and 3: "addNextState startSt (Some e) a2 = Inr (q, a3)" and b': "automaton b' = a3"
    by (auto simp: pushSkip_def andThen_eq_Inr)
  from Automaton_pushState_wf [OF wf 1] have "wfAutomaton a1" .
  from addNextState_wf [OF this 2] have "wfAutomaton a2" .
  from addNextState_wf [OF this 3] show ?thesis by (simp add: b')
qed

lemma compileSymbol_wf:
  assumes "wfAutomaton (automaton b)" and "compileSymbol c b = Inr b'"
  shows "wfAutomaton (automaton b')"
  using assms
  by (auto simp: compileSymbol_def split: if_splits
      intro: beginGroup_wf pushBranch_wf pushJump_wf pushState_wf)

lemma compileLoop_wf:
  assumes "wfAutomaton (automaton b)" and "compileLoop cs b = Inr b'"
  shows "wfAutomaton (automaton b')"
  using assms
proof (induction cs arbitrary: b)
  case Nil
  then show ?case by simp
next
  case (Cons c cs)
  from Cons.prems(2) obtain b1 where 1: "compileSymbol c b = Inr b1" and 2: "compileLoop cs b1 = Inr b'"
    by (auto simp: andThen_eq_Inr)
  from compileSymbol_wf [OF Cons.prems(1) 1] Cons.IH 2 show ?case by blast
qed

lemma build_wf:
  assumes "build pattern Automaton_new = Inr a"
  shows "wfAutomaton a"
proof -
  from assms obtain b b1 where 1: "compileLoop pattern (AutomatonBuilder_new Automaton_new) = Inr b"
    and 2: "endGroup b = Inr b1" and a: "a = automaton b1"
    by (auto simp: build_def andThen_eq_Inr)
  have "wfAutomaton (automaton (AutomatonBuilder_new (Automaton_new :: char Automaton)))"
    by (simp add: AutomatonBuilder_new_def wfAutomaton_new)
  from endGroup_wf [OF compileLoop_wf [OF this 1] 2] a show ?thesis by simp
qed

lemma cloneVisit_wf:
  assumes wf: "wfAutomaton (automaton b)"
    and ok: "cloneVisit endSt cv (q, vis, b) = Inr (q', vis', b')"
  shows "wfAutomaton (automaton b')"
proof (cases "vis (fst cv)")
  case None
  obtain currSt prevSt where cv: "cv = (currSt, prevSt)" by (cases cv)
  from ok None cv obtain c where c: "deref currSt (automaton b) = Inr c"
    by (auto simp: cloneVisit_def andThen_eq_Inr)
  obtain cl a1 where 1: "cloneState c (automaton b) = (cl, a1)"
    by (cases "cloneState c (automaton b)")
  from ok None cv c 1 obtain p a2 where 2: "addNextState prevSt (Some cl) a1 = Inr (p, a2)"
    and b': "automaton b' = a2"
    by (auto simp: cloneVisit_def andThen_eq_Inr)
  from 1 have "Automaton_pushState (kind (heap (automaton b) ! c)) (automaton b) = (cl, a1)"
    by (simp add: cloneState_def)
  from Automaton_pushState_wf [OF wf this] have "wfAutomaton a1" .
  from addNextState_wf [OF this 2] show ?thesis by (simp add: b')
next
  case (Some found)
  obtain currSt prevSt where cv: "cv = (currSt, prevSt)" by (cases cv)
  from ok Some cv obtain p a1 where 1: "addNextState prevSt found (automaton b) = Inr (p, a1)"
    and b': "automaton b' = a1"
    by (auto simp: cloneVisit_def andThen_eq_Inr)
  from addNextState_wf [OF wf 1] show ?thesis by (simp add: b')
qed

lemma cloneLoop_wf_aux:
  "cloneLoop endSt cv st = Some r \<Longrightarrow>
   \<forall>b'. r = Inr b' \<longrightarrow> wfAutomaton (automaton (snd (snd st))) \<longrightarrow>
           wfAutomaton (automaton b')"
proof (erule cloneLoop.raw_induct [rotated], goal_cases)
  case (1 loop endSt cv st r)
  obtain q vis b where st: "st = (q, vis, b)" by (cases st)
  show ?case
  proof (intro allI impI)
    fix b'
    assume r: "r = Inr b'" and wf: "wfAutomaton (automaton (snd (snd st)))"
    from "1"(2) r obtain q1 vis1 b1 where v: "cloneVisit endSt cv st = Inr (q1, vis1, b1)"
      and rest: "(if q1 = [] then Some (Inr b1)
                  else loop endSt (last q1) (butlast q1, vis1, b1)) = Some (Inr b')"
      by (auto split: sum.splits)
    from cloneVisit_wf [of b endSt cv q vis q1 vis1 b1] wf v st
    have wf1: "wfAutomaton (automaton b1)" by simp
    show "wfAutomaton (automaton b')"
    proof (cases "q1 = []")
      case True
      with rest wf1 show ?thesis by simp
    next
      case False
      with rest have "loop endSt (last q1) (butlast q1, vis1, b1) = Some (Inr b')" by simp
      from "1"(1) [OF this] wf1 show ?thesis by simp
    qed
  qed
qed

lemma cloneCurrentGroup_wf:
  assumes wf: "wfAutomaton (automaton b)" and ok: "cloneCurrentGroup b = Some (Inr b')"
  shows "wfAutomaton (automaton b')"
proof -
  from ok obtain startSt endSt where
    "cloneLoop endSt (startSt, currentState b) ([], Map.empty, b) = Some (Inr b')"
    by (auto simp: cloneCurrentGroup_def split: sum.splits)
  from cloneLoop_wf_aux [OF this] wf show ?thesis by simp
qed

lemma repeatMin_wf:
  assumes "wfAutomaton (automaton (snd st))" and "repeatMin n st = Some (Inr (p', b'))"
  shows "wfAutomaton (automaton b')"
  using assms
proof (induction n arbitrary: st)
  case 0
  then show ?case by simp
next
  case (Suc n)
  obtain prevSt b where st: "st = (prevSt, b)" by (cases st)
  obtain e a1 where 1: "Automaton_pushState Epsilon (automaton b) = (e, a1)"
    by (cases "Automaton_pushState Epsilon (automaton b)")
  from Suc.prems(2) st 1 obtain p a2 b1 where
    2: "addNextState (currentState b) (Some e) a1 = Inr (p, a2)"
    and 3: "cloneCurrentGroup (b\<lparr>automaton := a2, currentState := p\<rparr>) = Some (Inr b1)"
    and 4: "repeatMin n (Some p, b1) = Some (Inr (p', b'))"
    by (auto simp: andThenP_eq_Some_Inr)
  from Suc.prems(1) st have "wfAutomaton (automaton b)" by simp
  from Automaton_pushState_wf [OF this 1] have "wfAutomaton a1" .
  from addNextState_wf [OF this 2] have "wfAutomaton (automaton (b\<lparr>automaton := a2, currentState := p\<rparr>))"
    by simp
  from cloneCurrentGroup_wf [OF this 3] have "wfAutomaton (automaton (snd (Some p, b1)))" by simp
  from Suc.IH [OF this 4] show ?case .
qed

lemma repeatMax_wf:
  assumes "wfAutomaton (automaton b)" and "repeatMax n epsilon b = Some (Inr b')"
  shows "wfAutomaton (automaton b')"
  using assms
proof (induction n arbitrary: b)
  case 0
  then show ?case by simp
next
  case (Suc n)
  from Suc.prems(2) obtain p a1 b1 where
    1: "addNextState (currentState b) epsilon (automaton b) = Inr (p, a1)"
    and 2: "cloneCurrentGroup (b\<lparr>automaton := a1\<rparr>) = Some (Inr b1)"
    and 3: "repeatMax n epsilon b1 = Some (Inr b')"
    by (auto simp: andThenP_eq_Some_Inr)
  from addNextState_wf [OF Suc.prems(1) 1] have "wfAutomaton (automaton (b\<lparr>automaton := a1\<rparr>))"
    by simp
  from Suc.IH [OF cloneCurrentGroup_wf [OF this 2] 3] show ?case .
qed

lemma pushRepeat_wf:
  assumes wf: "wfAutomaton (automaton b)" and ok: "pushRepeat lo hi b = Some (Inr b')"
  shows "wfAutomaton (automaton b')"
proof -
  obtain e a1 where 1: "Automaton_pushState Epsilon (automaton b) = (e, a1)"
    by (cases "Automaton_pushState Epsilon (automaton b)")
  from ok 1 obtain prevSt b1 b2 p a3 where
    2: "repeatMin (nat (lo - 1)) (None, b\<lparr>automaton := a1\<rparr>) = Some (Inr (prevSt, b1))"
    and 3: "(if hi = 0
            then (case prevSt of
                    None \<Rightarrow> Some (Inl UninitialisedRead)
                  | Some p \<Rightarrow>
                      Some (andThen (addNextState (currentState b1) p (automaton b1)) (\<lambda>(_, a2).
                        Inr (b1\<lparr>automaton := a2\<rparr>))))
            else if lo \<le> hi
            then repeatMax (nat (hi - lo)) (Some e) b1
            else Some (Inl CheckFailed)) = Some (Inr b2)"
    and 4: "addNextState (currentState b2) (Some e) (automaton b2) = Inr (p, a3)"
    and b': "automaton b' = a3"
    by (auto simp: pushRepeat_def andThenP_eq_Some_Inr andThen_eq_Inr)
  from Automaton_pushState_wf [OF wf 1] have "wfAutomaton (automaton (snd (None :: ptr option, b\<lparr>automaton := a1\<rparr>)))"
    by simp
  from repeatMin_wf [OF this 2] have wf1: "wfAutomaton (automaton b1)" .
  have "wfAutomaton (automaton b2)"
  proof (cases "hi = 0")
    case True
    with 3 obtain q x a2 where "addNextState (currentState b1) q (automaton b1) = Inr (x, a2)"
      and "b2 = b1\<lparr>automaton := a2\<rparr>"
      by (auto simp: andThen_eq_Inr split: option.splits)
    with addNextState_wf [OF wf1 this(1)] show ?thesis by simp
  next
    case False
    with 3 have "repeatMax (nat (hi - lo)) (Some e) b1 = Some (Inr b2)"
      by (auto split: if_splits)
    from repeatMax_wf [OF wf1 this] show ?thesis .
  qed
  from addNextState_wf [OF this 4] show ?thesis by (simp add: b')
qed

lemma applyOp_wf:
  assumes "wfAutomaton (automaton b)" and "applyOp x b = Some (Inr b')"
  shows "wfAutomaton (automaton b')"
  using assms
  by (cases x)
    (auto intro: pushState_wf beginGroup_wf endGroup_wf pushBranch_wf pushSkip_wf pushJump_wf
      pushRepeat_wf)

lemma applyOps_wf:
  assumes "wfAutomaton (automaton b)" and "applyOps xs b = Some (Inr b')"
  shows "wfAutomaton (automaton b')"
  using assms
proof (induction xs arbitrary: b)
  case Nil
  then show ?case by simp
next
  case (Cons x xs)
  from Cons.prems(2) obtain b1 where 1: "applyOp x b = Some (Inr b1)"
    and 2: "applyOps xs b1 = Some (Inr b')"
    by (auto simp: andThenP_eq_Some_Inr)
  from Cons.IH [OF applyOp_wf [OF Cons.prems(1) 1] 2] show ?case .
qed

section \<open>The start and the accepted state\<close>

lemma length_setNext [simp]: "length (setNext i xs h) = length h"
  by (simp add: setNext_def)

lemma length_setPrev [simp]: "length (setPrev i xs h) = length h"
  by (simp add: setPrev_def)

lemma kind_setNext [simp]: "kind (setNext i xs h ! u) = kind (h ! u)"
  by (cases "i < length h") (simp_all add: setNext_def nth_list_update list_update_beyond)

lemma kind_setPrev [simp]: "kind (setPrev i xs h ! u) = kind (h ! u)"
  by (cases "i < length h") (simp_all add: setPrev_def nth_list_update list_update_beyond)

lemma length_fold_setPrev [simp]:
  "length (fold (\<lambda>s g. setPrev s (f g s) g) xs h) = length h"
  by (induction xs arbitrary: h) simp_all

lemma kind_fold_setPrev [simp]:
  "kind (fold (\<lambda>s g. setPrev s (f g s) g) xs h ! u) = kind (h ! u)"
  by (induction xs arbitrary: h) simp_all

lemma length_fold_setNext [simp]:
  "length (fold (\<lambda>s g. setNext s (f g s) g) xs h) = length h"
  by (induction xs arbitrary: h) simp_all

lemma kind_fold_setNext [simp]:
  "kind (fold (\<lambda>s g. setNext s (f g s) g) xs h ! u) = kind (h ! u)"
  by (induction xs arbitrary: h) simp_all

lemma mergePrevState_frame:
  "length (mergePrevState e h) = length h \<and> kind (mergePrevState e h ! u) = kind (h ! u)"
  by (simp add: mergePrevState_def Let_def)

lemma mergeNextState_frame:
  "length (mergeNextState e h) = length h \<and> kind (mergeNextState e h ! u) = kind (h ! u)"
  by (simp add: mergeNextState_def Let_def)

lemma removeEpsilon_frame:
  "length (removeEpsilon s h) = length h \<and> kind (removeEpsilon s h ! u) = kind (h ! u)"
  by (simp add: removeEpsilon_def mergePrevState_frame mergeNextState_frame)

lemma fold_removeEpsilon_frame:
  "length (fold removeEpsilon xs h) = length h \<and> kind (fold removeEpsilon xs h ! u) = kind (h ! u)"
  by (induction xs arbitrary: h) (simp_all add: removeEpsilon_frame)

lemma removedStates_subset: "set (removedStates xs h) \<subseteq> set xs"
  by (induction xs arbitrary: h) auto


text \<open>
  C9. The constructor of the automaton creates the start and the accepted state as
  epsilon states, in the first two cells of the store. After any sequence of builder
  calls that returns, both handles still denote these cells and both states are still
  epsilon states; the same holds after \<open>removeEpsilons\<close>, which keeps every cell of the
  store, and neither state is among the states that the pass merges away.
\<close>

theorem start_accept_lifetime:
  assumes "applyOps ops (AutomatonBuilder_new (Automaton_new :: 'a Automaton)) = Some (Inr b)"
  shows "startState (Automaton_new :: 'a Automaton) = Some 0 \<and>
    acceptedState (Automaton_new :: 'a Automaton) = Some 1 \<and>
    kind (heap (Automaton_new :: 'a Automaton) ! 0) = Epsilon \<and>
    kind (heap (Automaton_new :: 'a Automaton) ! 1) = Epsilon \<and>
    startState (automaton b) = Some 0 \<and> acceptedState (automaton b) = Some 1 \<and>
    2 \<le> length (heap (automaton b)) \<and>
    kind (heap (automaton b) ! 0) = Epsilon \<and> kind (heap (automaton b) ! 1) = Epsilon \<and>
    startState (removeEpsilons (automaton b)) = Some 0 \<and>
    acceptedState (removeEpsilons (automaton b)) = Some 1 \<and>
    length (heap (removeEpsilons (automaton b))) = length (heap (automaton b)) \<and>
    kind (heap (removeEpsilons (automaton b)) ! 0) = Epsilon \<and>
    kind (heap (removeEpsilons (automaton b)) ! 1) = Epsilon \<and>
    0 \<notin> set (removedStates (allocatedStates (automaton b)) (heap (automaton b))) \<and>
    1 \<notin> set (removedStates (allocatedStates (automaton b)) (heap (automaton b)))"
proof -
  have new: "wfAutomaton (Automaton_new :: 'a Automaton)"
    by (rule wfAutomaton_new)
  then have "wfAutomaton (automaton (AutomatonBuilder_new (Automaton_new :: 'a Automaton)))"
    by (simp add: AutomatonBuilder_new_def)
  from applyOps_wf [OF this assms] have wf: "wfAutomaton (automaton b)" .
  have "set (removedStates (allocatedStates (automaton b)) (heap (automaton b)))
      \<subseteq> set (allocatedStates (automaton b))"
    by (rule removedStates_subset)
  with wf have "0 \<notin> set (removedStates (allocatedStates (automaton b)) (heap (automaton b)))"
    and "1 \<notin> set (removedStates (allocatedStates (automaton b)) (heap (automaton b)))"
    by (auto simp: wfAutomaton_def)
  with new wf show ?thesis
    by (simp add: wfAutomaton_def removeEpsilons_def fold_removeEpsilon_frame)
qed

theorem start_accept_lifetime_witness:
  "\<exists>b. applyOps [PushState (Symbol CHR ''a''), PushJump, EndGroup]
         (AutomatonBuilder_new Automaton_new) = Some (Inr b) \<and>
       startState (removeEpsilons (automaton b)) = Some 0 \<and>
       acceptedState (removeEpsilons (automaton b)) = Some 1 \<and>
       kind (heap (removeEpsilons (automaton b)) ! 0) = Epsilon \<and>
       kind (heap (removeEpsilons (automaton b)) ! 1) = Epsilon \<and>
       0 \<notin> set (removedStates (allocatedStates (automaton b)) (heap (automaton b))) \<and>
       1 \<notin> set (removedStates (allocatedStates (automaton b)) (heap (automaton b)))"
proof -
  obtain b where b: "applyOps [PushState (Symbol CHR ''a''), PushJump, EndGroup]
         (AutomatonBuilder_new Automaton_new) = Some (Inr b)"
    by (simp add: pushState_def pushJump_def endGroup_def AutomatonBuilder_new_def
        Automaton_new_def createState_def Automaton_pushState_def addNextState_def
        frameRead_def frameWrite_def maxNumGroups_def int8_def)
  from start_accept_lifetime [OF b] b show ?thesis by blast
qed


section \<open>\<open>beginGroup\<close> on a full group stack\<close>

lemma beginGroup_result:
  assumes c: "currentState b = Some c" and l: "c < length (heap (automaton b))"
  shows "\<exists>b'. beginGroup b = Inr b' \<and>
    currentState b' = Some (length (heap (automaton b))) \<and>
    length (heap (automaton b')) = length (heap (automaton b)) + 2 \<and>
    currentGroup b' =
      (if 0 \<le> currentGroup b \<and> currentGroup b < maxNumGroups - 1
       then int8 (currentGroup b + 1) else currentGroup b) \<and>
    groupStart b' =
      (if 0 \<le> currentGroup b \<and> currentGroup b < maxNumGroups - 1
       then (groupStart b)(nat (currentGroup b) := Some (length (heap (automaton b))))
       else groupStart b) \<and>
    groupEnd b' =
      (if 0 \<le> currentGroup b \<and> currentGroup b < maxNumGroups - 1
       then (groupEnd b)(nat (currentGroup b) := Some (Suc (length (heap (automaton b)))))
       else groupEnd b)"
  using assms
  by (simp add: beginGroup_def Automaton_pushState_def createState_def addNextState_def)

lemma compileLoop_open_parens:
  assumes "currentState b = Some c" and "c < length (heap (automaton b))"
    and "0 \<le> currentGroup b" and "currentGroup b + int n \<le> 126"
  shows "\<exists>b' c'. compileLoop (replicate n CHR ''('') b = Inr b' \<and>
    currentGroup b' = currentGroup b + int n \<and>
    currentState b' = Some c' \<and> c' < length (heap (automaton b'))"
  using assms
proof (induction n arbitrary: b c)
  case 0
  then show ?case by simp
next
  case (Suc n)
  from beginGroup_result [OF Suc.prems(1,2)] Suc.prems(3,4)
  obtain b1 where 1: "beginGroup b = Inr b1"
    and c1: "currentState b1 = Some (length (heap (automaton b)))"
    and l1: "length (heap (automaton b1)) = length (heap (automaton b)) + 2"
    and g1: "currentGroup b1 = currentGroup b + 1"
    by (auto simp: maxNumGroups_def int8_def)
  from l1 have l1': "length (heap (automaton b)) < length (heap (automaton b1))" by simp
  from Suc.prems(3,4) g1 have "0 \<le> currentGroup b1" "currentGroup b1 + int n \<le> 126"
    by simp_all
  from Suc.IH [OF c1 l1' this] obtain b' c' where
    "compileLoop (replicate n CHR ''('') b1 = Inr b'"
    "currentGroup b' = currentGroup b1 + int n"
    "currentState b' = Some c'" "c' < length (heap (automaton b'))"
    by blast
  with 1 g1 show ?case
    by (auto simp: compileSymbol_def)
qed

text \<open>
  C4 at a full group stack. The pattern of 125 opening parentheses brings a new builder
  to the top frame index 126, the last index of the group buffers. The next
  \<open>beginGroup\<close> returns normally: it allocates its two states and moves the current
  state, skips the push of the frame, and signals no error.
\<close>

theorem beginGroup_at_capacity:
  "\<exists>b b'. compileLoop (replicate 125 CHR ''('') (AutomatonBuilder_new Automaton_new) = Inr b \<and>
     currentGroup b = 126 \<and>
     beginGroup b = Inr b' \<and>
     currentGroup b' = 126 \<and> groupStart b' = groupStart b \<and> groupEnd b' = groupEnd b \<and>
     length (heap (automaton b')) = length (heap (automaton b)) + 2"
proof -
  let ?b0 = "AutomatonBuilder_new (Automaton_new :: char Automaton)"
  have "currentState ?b0 = Some 0" "0 < length (heap (automaton ?b0))"
    "0 \<le> currentGroup ?b0" "currentGroup ?b0 + int 125 \<le> 126"
    by (simp_all add: AutomatonBuilder_new_def Automaton_new_def createState_def)
  from compileLoop_open_parens [OF this] obtain b c where
    b: "compileLoop (replicate 125 CHR ''('') ?b0 = Inr b"
    and g: "currentGroup b = 126"
    and c: "currentState b = Some c" "c < length (heap (automaton b))"
    by (auto simp: AutomatonBuilder_new_def)
  from beginGroup_result [OF c] g obtain b' where
    "beginGroup b = Inr b'" "currentGroup b' = 126" "groupStart b' = groupStart b"
    "groupEnd b' = groupEnd b" "length (heap (automaton b')) = length (heap (automaton b)) + 2"
    by (auto simp: maxNumGroups_def)
  with b g show ?thesis by blast
qed

section \<open>Cloning a group that a skip edge leaves\<close>

lemma cloneRunaway_step:
  assumes "cloneRunaway cv st"
  shows "\<exists>q' vis' b'. cloneVisit (Some 3) cv st = Inr (q', vis', b') \<and> q' \<noteq> [] \<and>
           cloneRunaway (last q') (butlast q', vis', b')"
proof -
  obtain q vis b where st: "st = (q, vis, b)" by (cases st)
  from assms st obtain m where m: "6 \<le> m" and len: "length (heap (automaton b)) = m + 3"
    and cv: "cv = (Some m, Some (m + 2))"
    and n0: "nextStates (heap (automaton b) ! m) = [m + 1]"
    and n1: "nextStates (heap (automaton b) ! (m + 1)) = [m + 2]"
    and n2: "nextStates (heap (automaton b) ! (m + 2)) = []"
    and vis: "\<forall>i\<ge>m. vis (Some i) = None"
    by (auto simp: cloneRunaway_def)
  let ?h = "heap (automaton b)"
  let ?h1 = "?h @ [newState (kind (?h ! m))]"
  let ?h2 = "linkStates (m + 2) (m + 3) ?h1"
  let ?b' = "b\<lparr>automaton := (automaton b)\<lparr>heap := ?h2,
      allocatedStates := allocatedStates (automaton b) @ [m + 3]\<rparr>, currentState := Some (m + 3)\<rparr>"
  from vis have v0: "vis (Some m) = None" by simp
  have nx: "nextStates (?h2 ! m) = [m + 1]" "nextStates (?h2 ! (m + 1)) = [m + 2]"
    "nextStates (?h2 ! (m + 2)) = [m + 3]" "nextStates (?h2 ! (m + 3)) = []"
    using len n0 n1 n2 by (simp_all add: nextStates_linkStates nth_append newState_def)
  have step: "cloneVisit (Some 3) cv st =
      Inr (q @ [(Some (m + 1), Some (m + 3))], vis(Some m \<mapsto> Some (m + 3)), ?b')"
    using m len v0 nx(1)
    by (simp add: st cv cloneVisit_def cloneState_def Automaton_pushState_def createState_def
        addNextState_def)
  have "cloneRunaway (Some (m + 1), Some (m + 3)) (q, vis(Some m \<mapsto> Some (m + 3)), ?b')"
    unfolding cloneRunaway_def
    using m len nx vis
    by (auto intro!: exI [of _ "m + 1"] simp: numeral_3_eq_3)
  with step show ?thesis by simp
qed

lemma cloneRunaway_diverges_aux:
  "cloneLoop endSt cv st = Some r \<Longrightarrow> endSt = Some 3 \<longrightarrow> \<not> cloneRunaway cv st"
proof (erule cloneLoop.raw_induct [rotated], goal_cases)
  case (1 loop endSt cv st r)
  show ?case
  proof (intro impI notI)
    assume e: "endSt = Some 3" and inv: "cloneRunaway cv st"
    from cloneRunaway_step [OF inv] obtain q' vis' b' where
      v: "cloneVisit (Some 3) cv st = Inr (q', vis', b')" and ne: "q' \<noteq> []"
      and inv': "cloneRunaway (last q') (butlast q', vis', b')"
      by blast
    from "1"(2) v ne e have "loop endSt (last q') (butlast q', vis', b') = Some r" by simp
    from "1"(1) [OF this] e inv' show False by simp
  qed
qed

lemma cloneRunaway_diverges:
  assumes "cloneRunaway cv st" and "endSt = Some 3"
  shows "cloneLoop endSt cv st = None"
proof (cases "cloneLoop endSt cv st")
  case None
  then show ?thesis .
next
  case (Some r)
  from cloneRunaway_diverges_aux [OF Some] assms show ?thesis by simp
qed



lemma runaway_start:
  "cloneRunaway (Some (Suc (Suc (Suc (Suc (Suc (Suc 0)))))),
       Some (Suc (Suc (Suc (Suc (Suc (Suc (Suc (Suc 0)))))))))
     (q, [Some (Suc (Suc 0)) \<mapsto> x, Some (Suc (Suc (Suc (Suc 0)))) \<mapsto> y],
      \<lparr>automaton = \<lparr>heap = [s0, s1, s2, s3, s4, s5,
                \<lparr>kind = Epsilon, nextStates = [Suc (Suc (Suc (Suc (Suc (Suc (Suc 0))))))],
                   prevStates = p6\<rparr>,
                \<lparr>kind = Epsilon, nextStates = [Suc (Suc (Suc (Suc (Suc (Suc (Suc (Suc 0)))))))],
                   prevStates = p7\<rparr>,
                \<lparr>kind = Epsilon, nextStates = [], prevStates = p8\<rparr>],
           allocatedStates = al, startState = st, acceptedState = ac\<rparr>,
         currentState = c, groupStart = gs, groupEnd = ge, currentGroup = g\<rparr>)"
  unfolding cloneRunaway_def
  apply (simp only: prod.case)
  apply (rule exI [of _ "Suc (Suc (Suc (Suc (Suc (Suc 0)))))"])
  apply (simp add: eval_nat_numeral)
  done


text \<open>
  C8 on a group with a skip edge. After \<open>pushState\<close> and \<open>pushSkip\<close> the frame of the
  last atom still ends at the symbol state, while the skip edge leads from the start
  of the frame to the current state. \<open>pushRepeat(2, 2)\<close> then clones the group: the
  traversal leaves the group along the skip edge, reaches the clones it has linked
  after the current state, and clones them in turn without end. The call never
  returns.
\<close>

theorem clone_after_skip_never_returns:
  "applyOps [PushState (Symbol CHR ''a''), PushSkip, PushRepeat 2 2]
     (AutomatonBuilder_new Automaton_new) = None"
  apply (simp add: pushState_def pushSkip_def pushRepeat_def cloneCurrentGroup_def
      AutomatonBuilder_new_def Automaton_new_def createState_def Automaton_pushState_def
      addNextState_def frameRead_def frameWrite_def maxNumGroups_def newState_def
      linkStates_def)
  apply (subst cloneLoop.simps)
  apply (simp add: cloneVisit_def cloneState_def Automaton_pushState_def createState_def
      addNextState_def newState_def linkStates_def)
  apply (subst cloneLoop.simps)
  apply (simp add: cloneVisit_def cloneState_def Automaton_pushState_def createState_def
      addNextState_def newState_def linkStates_def)
  apply (subst cloneRunaway_diverges [OF runaway_start])
   apply (simp add: numeral_3_eq_3)
  apply simp
  done


section \<open>Cutting out an epsilon state\<close>

lemma bypassed_sound:
  assumes b: "bypassed e h h'" and a: "accepts zero h' t u w"
  shows "accepts zero h t u w"
  using a
proof (induction rule: accepts.induct)
  case accepts_end
  show ?case by (rule accepts.accepts_end)
next
  case (accepts_eps u v w)
  from b accepts_eps.hyps(1) have ul: "u < length h" by (simp add: bypassed_def)
  from b accepts_eps.hyps(3) have ue: "u \<noteq> e" by (auto simp: bypassed_def)
  from b ul accepts_eps.hyps(2) have k: "isEpsilon (kind (h ! u))" by (simp add: bypassed_def)
  from b ul ue accepts_eps.hyps(3)
  have "v \<in> set (nextStates (h ! u)) \<or>
      (e \<in> set (nextStates (h ! u)) \<and> v \<in> set (nextStates (h ! e)))"
    unfolding bypassed_def by (auto split: if_splits)
  then show ?case
  proof
    assume "v \<in> set (nextStates (h ! u))"
    from accepts.accepts_eps [OF ul k this accepts_eps.IH] show ?thesis .
  next
    assume c: "e \<in> set (nextStates (h ! u)) \<and> v \<in> set (nextStates (h ! e))"
    from b have "e < length h" "isEpsilon (kind (h ! e))" by (simp_all add: bypassed_def)
    from accepts.accepts_eps [OF this] c accepts_eps.IH have "accepts zero h t e w" by blast
    from accepts.accepts_eps [OF ul k _ this] c show ?thesis by blast
  qed
next
  case (accepts_sym u c v w)
  from b accepts_sym.hyps(1) have ul: "u < length h" by (simp add: bypassed_def)
  from b accepts_sym.hyps(3) have ue: "u \<noteq> e" by (auto simp: bypassed_def)
  from b ul accepts_sym.hyps(2) have k: "matchSymbol zero (kind (h ! u)) c"
    by (simp add: bypassed_def)
  from b ul ue accepts_sym.hyps(3)
  have "v \<in> set (nextStates (h ! u)) \<or>
      (e \<in> set (nextStates (h ! u)) \<and> v \<in> set (nextStates (h ! e)))"
    unfolding bypassed_def by (auto split: if_splits)
  then show ?case
  proof
    assume "v \<in> set (nextStates (h ! u))"
    from accepts.accepts_sym [OF ul k this accepts_sym.IH] show ?thesis .
  next
    assume d: "e \<in> set (nextStates (h ! u)) \<and> v \<in> set (nextStates (h ! e))"
    from b have "e < length h" "isEpsilon (kind (h ! e))" by (simp_all add: bypassed_def)
    from accepts.accepts_eps [OF this] d accepts_sym.IH have "accepts zero h t e w" by blast
    from accepts.accepts_sym [OF ul k _ this] d show ?thesis by blast
  qed
qed

lemma isEpsilon_no_match: "isEpsilon k \<Longrightarrow> \<not> matchSymbol zero k c"
  by (cases k) simp_all

lemma bypassed_complete_aux:
  assumes b: "bypassed e h h'" and te: "t \<noteq> e" and a: "accepts zero h t u w"
  shows "(u \<noteq> e \<longrightarrow> accepts zero h' t u w) \<and>
         (u = e \<longrightarrow> (\<exists>s\<in>set (nextStates (h ! e)). s \<noteq> e \<and> accepts zero h' t s w))"
  using a
proof (induction rule: accepts.induct)
  case accepts_end
  from te show ?case by (auto intro: accepts.accepts_end)
next
  case (accepts_eps u v w)
  show ?case
  proof (cases "u = e")
    case True
    with accepts_eps.hyps(3) accepts_eps.IH show ?thesis by (cases "v = e") auto
  next
    case False
    from b accepts_eps.hyps(1) have ul: "u < length h'" by (simp add: bypassed_def)
    from b accepts_eps.hyps(1,2) have k: "isEpsilon (kind (h' ! u))" by (simp add: bypassed_def)
    from accepts_eps.IH accepts_eps.hyps(3) have
      "\<exists>s. accepts zero h' t s w \<and> s \<noteq> e \<and>
         (s \<in> set (nextStates (h ! u)) \<or>
          (e \<in> set (nextStates (h ! u)) \<and> s \<in> set (nextStates (h ! e))))"
      by (cases "v = e") auto
    then obtain s where s: "accepts zero h' t s w" and "s \<noteq> e"
      and "s \<in> set (nextStates (h ! u)) \<or>
          (e \<in> set (nextStates (h ! u)) \<and> s \<in> set (nextStates (h ! e)))"
      by blast
    with b accepts_eps.hyps(1) False have "s \<in> set (nextStates (h' ! u))"
      unfolding bypassed_def by auto
    from accepts.accepts_eps [OF ul k this s] False show ?thesis by simp
  qed
next
  case (accepts_sym u c v w)
  from b accepts_sym.hyps(2) have ue: "u \<noteq> e"
    by (auto simp: bypassed_def dest: isEpsilon_no_match)
  from b accepts_sym.hyps(1) have ul: "u < length h'" by (simp add: bypassed_def)
  from b accepts_sym.hyps(1,2) have k: "matchSymbol zero (kind (h' ! u)) c"
    by (simp add: bypassed_def)
  from accepts_sym.IH accepts_sym.hyps(3) have
    "\<exists>s. accepts zero h' t s w \<and> s \<noteq> e \<and>
       (s \<in> set (nextStates (h ! u)) \<or>
        (e \<in> set (nextStates (h ! u)) \<and> s \<in> set (nextStates (h ! e))))"
    by (cases "v = e") auto
  then obtain s where s: "accepts zero h' t s w" and "s \<noteq> e"
    and "s \<in> set (nextStates (h ! u)) \<or>
        (e \<in> set (nextStates (h ! u)) \<and> s \<in> set (nextStates (h ! e)))"
    by blast
  with b accepts_sym.hyps(1) ue have "s \<in> set (nextStates (h' ! u))"
    unfolding bypassed_def by auto
  from accepts.accepts_sym [OF ul k this s] ue show ?case by simp
qed

lemma bypassed_accepts:
  assumes "bypassed e h h'" and "t \<noteq> e" and "u \<noteq> e"
  shows "accepts zero h' t u w \<longleftrightarrow> accepts zero h t u w"
  using bypassed_sound [OF assms(1)] bypassed_complete_aux [OF assms(1,2)] assms(3)
  by blast

section \<open>The epsilon closure and the executor\<close>

lemma epsClosure_seen: "set seen \<subseteq> set (epsClosure h todo seen)"
proof (induction h todo seen rule: epsClosure.induct)
  case (1 h seen)
  show ?case by simp
next
  case (2 h u todo seen)
  then show ?case by (cases "u \<in> set seen \<or> \<not> u < length h") auto
qed

lemma epsClosure_sound:
  "v \<in> set (epsClosure h todo seen) \<Longrightarrow>
   v \<in> set seen \<or> (\<exists>u\<in>set todo. u < length h \<and> (u, v) \<in> (epsEdges h)\<^sup>*)"
proof (induction h todo seen rule: epsClosure.induct)
  case (1 h seen)
  then show ?case by simp
next
  case (2 h u todo seen)
  show ?case
  proof (cases "u \<in> set seen \<or> \<not> u < length h")
    case True
    with 2 show ?thesis by auto
  next
    case False
    let ?new = "if isEpsilon (kind (h ! u)) then nextStates (h ! u) else []"
    from False "2.prems" have "v \<in> set (epsClosure h (?new @ todo) (u # seen))" by simp
    from "2.IH"(2) [OF False this]
    have "v \<in> set (u # seen) \<or> (\<exists>x\<in>set (?new @ todo). x < length h \<and> (x, v) \<in> (epsEdges h)\<^sup>*)" .
    then consider "v = u" | "v \<in> set seen"
      | x where "x \<in> set ?new" "(x, v) \<in> (epsEdges h)\<^sup>*"
      | x where "x \<in> set todo" "x < length h" "(x, v) \<in> (epsEdges h)\<^sup>*"
      by auto
    then show ?thesis
    proof cases
      case 1
      with False show ?thesis by auto
    next
      case 2
      then show ?thesis by simp
    next
      case 3
      from 3(1) False have "(u, x) \<in> epsEdges h"
        by (auto simp: epsEdges_def split: if_splits)
      from converse_rtrancl_into_rtrancl [OF this 3(2)] False show ?thesis by auto
    next
      case 4
      then show ?thesis by auto
    qed
  qed
qed

lemma epsClosure_closed:
  "nextBounded h \<Longrightarrow>
    (\<forall>x\<in>set seen. \<forall>y. (x, y) \<in> epsEdges h \<longrightarrow> y \<in> set seen \<union> set todo) \<Longrightarrow>
    (\<forall>x\<in>set todo. x < length h \<longrightarrow> x \<in> set (epsClosure h todo seen)) \<and>
    (\<forall>x\<in>set (epsClosure h todo seen). \<forall>y. (x, y) \<in> epsEdges h \<longrightarrow>
        y \<in> set (epsClosure h todo seen))"
proof (induction h todo seen rule: epsClosure.induct)
  case (1 h seen)
  then show ?case by simp
next
  case (2 h u todo seen)
  have bound: "\<And>x y. (x, y) \<in> epsEdges h \<Longrightarrow> y < length h"
    using "2.prems"(1) by (auto simp: epsEdges_def nextBounded_def)
  show ?case
  proof (cases "u \<in> set seen \<or> \<not> u < length h")
    case True
    have "\<forall>x\<in>set seen. \<forall>y. (x, y) \<in> epsEdges h \<longrightarrow> y \<in> set seen \<union> set todo"
    proof (intro ballI allI impI)
      fix x y
      assume x: "x \<in> set seen" and e: "(x, y) \<in> epsEdges h"
      with "2.prems"(2) have "y \<in> set seen \<union> set (u # todo)" by blast
      with True bound [OF e] show "y \<in> set seen \<union> set todo" by auto
    qed
    from "2.IH"(1) [OF True "2.prems"(1) this] True epsClosure_seen [of seen h todo]
    show ?thesis by auto
  next
    case False
    let ?new = "if isEpsilon (kind (h ! u)) then nextStates (h ! u) else []"
    have "\<forall>x\<in>set (u # seen). \<forall>y. (x, y) \<in> epsEdges h \<longrightarrow>
        y \<in> set (u # seen) \<union> set (?new @ todo)"
    proof (intro ballI allI impI)
      fix x y
      assume x: "x \<in> set (u # seen)" and e: "(x, y) \<in> epsEdges h"
      show "y \<in> set (u # seen) \<union> set (?new @ todo)"
      proof (cases "x = u")
        case True
        with e show ?thesis by (auto simp: epsEdges_def)
      next
        case False
        with x have "x \<in> set seen" by simp
        with "2.prems"(2) e have "y \<in> set seen \<union> set (u # todo)" by blast
        then show ?thesis by auto
      qed
    qed
    from "2.IH"(2) [OF False "2.prems"(1) this] False epsClosure_seen [of "u # seen" h "?new @ todo"]
    show ?thesis by auto
  qed
qed

lemma epsClosure_reach:
  assumes nb: "nextBounded h"
  shows "set (epsClosure h xs []) = {v. \<exists>u\<in>set xs. u < length h \<and> (u, v) \<in> (epsEdges h)\<^sup>*}"
proof (intro equalityI subsetI)
  fix v
  assume "v \<in> set (epsClosure h xs [])"
  from epsClosure_sound [OF this] show "v \<in> {v. \<exists>u\<in>set xs. u < length h \<and> (u, v) \<in> (epsEdges h)\<^sup>*}"
    by simp
next
  fix v
  assume "v \<in> {v. \<exists>u\<in>set xs. u < length h \<and> (u, v) \<in> (epsEdges h)\<^sup>*}"
  then obtain u where u: "u \<in> set xs" "u < length h" and r: "(u, v) \<in> (epsEdges h)\<^sup>*" by blast
  from epsClosure_closed [OF nb, of "[]" xs]
  have start: "\<forall>x\<in>set xs. x < length h \<longrightarrow> x \<in> set (epsClosure h xs [])"
    and closed: "\<forall>x\<in>set (epsClosure h xs []). \<forall>y. (x, y) \<in> epsEdges h \<longrightarrow>
        y \<in> set (epsClosure h xs [])"
    by simp_all
  from r show "v \<in> set (epsClosure h xs [])"
  proof (induction rule: rtrancl_induct)
    case base
    from start u show ?case by blast
  next
    case (step y z)
    with closed show ?case by blast
  qed
qed

lemma accepts_eps_path:
  assumes "(u, x) \<in> (epsEdges h)\<^sup>*" and "accepts zero h t x w"
  shows "accepts zero h t u w"
  using assms
proof (induction rule: converse_rtrancl_induct)
  case base
  then show ?case .
next
  case (step y z)
  from step.hyps(1) have "y < length h" "isEpsilon (kind (h ! y))" "z \<in> set (nextStates (h ! y))"
    by (simp_all add: epsEdges_def)
  from accepts_eps [OF this step.IH [OF step.prems]] show ?case .
qed

lemma accepts_Nil_path:
  "accepts zero h t u w \<Longrightarrow> w = [] \<Longrightarrow> (u, t) \<in> (epsEdges h)\<^sup>*"
proof (induction rule: accepts.induct)
  case accepts_end
  show ?case by simp
next
  case (accepts_eps u v w)
  from accepts_eps.hyps(1-3) have "(u, v) \<in> epsEdges h" by (simp add: epsEdges_def)
  from converse_rtrancl_into_rtrancl [OF this accepts_eps.IH [OF accepts_eps.prems]]
  show ?case .
next
  case (accepts_sym u c v w)
  then show ?case by simp
qed

lemma accepts_Nil:
  "accepts zero h t u [] \<longleftrightarrow> (u, t) \<in> (epsEdges h)\<^sup>*"
proof
  assume "accepts zero h t u []"
  from accepts_Nil_path [OF this] show "(u, t) \<in> (epsEdges h)\<^sup>*" by simp
next
  assume "(u, t) \<in> (epsEdges h)\<^sup>*"
  from accepts_eps_path [OF this accepts_end] show "accepts zero h t u []" .
qed

lemma accepts_Cons_path:
  "accepts zero h t u cw \<Longrightarrow> cw = c # w \<Longrightarrow>
     \<exists>x y. (u, x) \<in> (epsEdges h)\<^sup>* \<and> x < length h \<and> matchSymbol zero (kind (h ! x)) c \<and>
            y \<in> set (nextStates (h ! x)) \<and> accepts zero h t y w"
proof (induction rule: accepts.induct)
  case accepts_end
  then show ?case by simp
next
  case (accepts_eps u v w')
  from accepts_eps.hyps(1-3) have e: "(u, v) \<in> epsEdges h" by (simp add: epsEdges_def)
  from accepts_eps.IH [OF accepts_eps.prems] obtain x y where
    p: "(v, x) \<in> (epsEdges h)\<^sup>*" and r: "x < length h" "matchSymbol zero (kind (h ! x)) c"
    "y \<in> set (nextStates (h ! x))" "accepts zero h t y w"
    by blast
  from converse_rtrancl_into_rtrancl [OF e p] r show ?case by blast
next
  case (accepts_sym u c' v w')
  then show ?case by blast
qed

lemma accepts_Cons:
  "accepts zero h t u (c # w) \<longleftrightarrow>
     (\<exists>x y. (u, x) \<in> (epsEdges h)\<^sup>* \<and> x < length h \<and> matchSymbol zero (kind (h ! x)) c \<and>
            y \<in> set (nextStates (h ! x)) \<and> accepts zero h t y w)"
proof
  assume "accepts zero h t u (c # w)"
  from accepts_Cons_path [OF this] show
    "\<exists>x y. (u, x) \<in> (epsEdges h)\<^sup>* \<and> x < length h \<and> matchSymbol zero (kind (h ! x)) c \<and>
            y \<in> set (nextStates (h ! x)) \<and> accepts zero h t y w"
    by simp
next
  assume "\<exists>x y. (u, x) \<in> (epsEdges h)\<^sup>* \<and> x < length h \<and> matchSymbol zero (kind (h ! x)) c \<and>
            y \<in> set (nextStates (h ! x)) \<and> accepts zero h t y w"
  then obtain x y where p: "(u, x) \<in> (epsEdges h)\<^sup>*" and "x < length h"
    "matchSymbol zero (kind (h ! x)) c" "y \<in> set (nextStates (h ! x))" "accepts zero h t y w"
    by blast
  from accepts_eps_path [OF p accepts_sym [OF this(2-5)]] show "accepts zero h t u (c # w)" .
qed

lemma epsEdges_bounded:
  assumes "nextBounded h" and "(u, v) \<in> (epsEdges h)\<^sup>*" and "u < length h"
  shows "v < length h"
  using assms(2,3)
proof (induction rule: rtrancl_induct)
  case base
  then show ?case .
next
  case (step y z)
  with assms(1) show ?case by (auto simp: epsEdges_def nextBounded_def)
qed

lemma executorRun_accepts:
  assumes nb: "nextBounded h"
  shows "executorRun zero h t (epsClosure h xs []) w \<longleftrightarrow>
           (\<exists>u\<in>set xs. u < length h \<and> accepts zero h t u w)"
proof (induction w arbitrary: xs)
  case Nil
  show ?case
    by (auto simp: epsClosure_reach [OF nb] accepts_Nil)
next
  case (Cons c w)
  let ?F = "epsClosure h xs []"
  let ?ys = "concat (map (\<lambda>u. consume zero h u c) ?F)"
  have ys: "y \<in> set ?ys \<longleftrightarrow>
      (\<exists>u\<in>set xs. u < length h \<and> (\<exists>x. (u, x) \<in> (epsEdges h)\<^sup>* \<and>
          matchSymbol zero (kind (h ! x)) c \<and> y \<in> set (nextStates (h ! x))))" for y
    by (auto simp: epsClosure_reach [OF nb] consume_def split: if_splits)
  have valid: "y < length h" if "y \<in> set ?ys" for y
  proof -
    from that ys obtain u x where "u < length h" "(u, x) \<in> (epsEdges h)\<^sup>*"
      "y \<in> set (nextStates (h ! x))" by blast
    with epsEdges_bounded [OF nb this(2,1)] nb show ?thesis
      by (auto simp: nextBounded_def)
  qed
  have r: "(\<exists>u\<in>set xs. u < length h \<and> accepts zero h t u (c # w)) \<longleftrightarrow>
      (\<exists>y\<in>set ?ys. y < length h \<and> accepts zero h t y w)"
  proof
    assume "\<exists>u\<in>set xs. u < length h \<and> accepts zero h t u (c # w)"
    then obtain u x y where "u \<in> set xs" "u < length h" "(u, x) \<in> (epsEdges h)\<^sup>*"
      "matchSymbol zero (kind (h ! x)) c" "y \<in> set (nextStates (h ! x))" "accepts zero h t y w"
      by (auto simp: accepts_Cons)
    with ys [of y] valid [of y] show "\<exists>y\<in>set ?ys. y < length h \<and> accepts zero h t y w"
      by blast
  next
    assume "\<exists>y\<in>set ?ys. y < length h \<and> accepts zero h t y w"
    then obtain y where y: "y \<in> set ?ys" "accepts zero h t y w" by blast
    with ys [of y] obtain u x where u: "u \<in> set xs" "u < length h"
      and p: "(u, x) \<in> (epsEdges h)\<^sup>*" "matchSymbol zero (kind (h ! x)) c"
      "y \<in> set (nextStates (h ! x))" by blast
    from epsEdges_bounded [OF nb p(1) u(2)] have "x < length h" .
    with p y(2) have "accepts zero h t u (c # w)" by (auto simp: accepts_Cons)
    with u show "\<exists>u\<in>set xs. u < length h \<and> accepts zero h t u (c # w)" by blast
  qed
  show ?case
  proof (cases "epsClosure h ?ys [] = []")
    case True
    have "\<not> (\<exists>y\<in>set ?ys. y < length h \<and> accepts zero h t y w)"
    proof
      assume "\<exists>y\<in>set ?ys. y < length h \<and> accepts zero h t y w"
      then obtain y where "y \<in> set ?ys" "y < length h" by blast
      then have "y \<in> set (epsClosure h ?ys [])"
        by (auto simp: epsClosure_reach [OF nb])
      with True show False by simp
    qed
    with True r show ?thesis by (simp add: Let_def)
  next
    case False
    with Cons.IH [of ?ys] r show ?thesis by (simp add: Let_def)
  qed
qed

section \<open>The merges of the optimizer\<close>

lemma set_spliceStates:
  "set (spliceStates e ys xs) = (set xs - {e}) \<union> (if e \<in> set xs then set ys else {})"
  by (induction xs) (auto simp: spliceStates_def)

lemma spliceStates_absent: "e \<notin> set xs \<Longrightarrow> spliceStates e ys xs = xs"
  by (induction xs) (auto simp: spliceStates_def)

lemma spliceStates_idem:
  "spliceStates e [p] (spliceStates e [p] xs) = spliceStates e [p] xs"
  by (induction xs) (auto simp: spliceStates_def)

lemma nextStates_setNext:
  "nextStates (setNext i xs h ! u) = (if u = i \<and> i < length h then xs else nextStates (h ! u))"
  by (cases "i < length h") (simp_all add: setNext_def nth_list_update list_update_beyond)

lemma prevStates_setNext [simp]: "prevStates (setNext i xs h ! u) = prevStates (h ! u)"
  by (cases "i < length h") (simp_all add: setNext_def nth_list_update list_update_beyond)

lemma nextStates_setPrev [simp]: "nextStates (setPrev i xs h ! u) = nextStates (h ! u)"
  by (cases "i < length h") (simp_all add: setPrev_def nth_list_update list_update_beyond)

lemma prevStates_setPrev:
  "prevStates (setPrev i xs h ! u) = (if u = i \<and> i < length h then xs else prevStates (h ! u))"
  by (cases "i < length h") (simp_all add: setPrev_def nth_list_update list_update_beyond)

lemma nextStates_fold_setPrev [simp]:
  "nextStates (fold (\<lambda>s g. setPrev s (f g s) g) xs h ! u) = nextStates (h ! u)"
  by (induction xs arbitrary: h) simp_all

lemma prevStates_fold_setNext [simp]:
  "prevStates (fold (\<lambda>s g. setNext s (f g s) g) xs h ! u) = prevStates (h ! u)"
  by (induction xs arbitrary: h) simp_all

lemma prevStates_fold_splice:
  "prevStates (fold (\<lambda>s g. setPrev s (spliceStates e [p] (prevStates (g ! s))) g) xs h ! u) =
     (if u \<in> set xs \<and> u < length h then spliceStates e [p] (prevStates (h ! u))
      else prevStates (h ! u))"
proof (induction xs arbitrary: h)
  case Nil
  show ?case by simp
next
  case (Cons x xs)
  show ?case
    by (auto simp: Cons.IH prevStates_setPrev spliceStates_idem)
qed

lemma nextStates_fold_splice:
  "nextStates (fold (\<lambda>s g. setNext s (spliceStates e [p] (nextStates (g ! s))) g) xs h ! u) =
     (if u \<in> set xs \<and> u < length h then spliceStates e [p] (nextStates (h ! u))
      else nextStates (h ! u))"
proof (induction xs arbitrary: h)
  case Nil
  show ?case by simp
next
  case (Cons x xs)
  show ?case
    by (auto simp: Cons.IH nextStates_setNext spliceStates_idem)
qed

lemma nextStates_mergePrevState:
  "nextStates (mergePrevState e h ! u) =
     (if u = e \<and> e < length h then []
      else if u = hd (prevStates (h ! e)) \<and> u < length h
      then spliceStates e (nextStates (h ! e)) (nextStates (h ! u))
      else nextStates (h ! u))"
  by (simp add: mergePrevState_def Let_def nextStates_setNext)

lemma prevStates_mergePrevState:
  "prevStates (mergePrevState e h ! u) =
     (if u = e \<and> e < length h then []
      else if u \<in> set (nextStates (h ! e)) \<and> u < length h
      then spliceStates e [hd (prevStates (h ! e))] (prevStates (h ! u))
      else prevStates (h ! u))"
  by (simp add: mergePrevState_def Let_def prevStates_setPrev prevStates_fold_splice)

lemma nextStates_mergeNextState:
  "nextStates (mergeNextState e h ! u) =
     (if u = e \<and> e < length h then []
      else if u \<in> set (prevStates (h ! e)) \<and> u < length h
      then spliceStates e [hd (nextStates (h ! e))] (nextStates (h ! u))
      else nextStates (h ! u))"
  by (simp add: mergeNextState_def Let_def nextStates_setNext nextStates_fold_splice)

lemma prevStates_mergeNextState:
  "prevStates (mergeNextState e h ! u) =
     (if u = e \<and> e < length h then []
      else if u = hd (nextStates (h ! e)) \<and> u < length h
      then spliceStates e (prevStates (h ! e)) (prevStates (h ! u))
      else prevStates (h ! u))"
  by (simp add: mergeNextState_def Let_def prevStates_setPrev)

lemma mergePrevState_bypassed:
  assumes s: "syncHeap D h" and eD: "e \<notin> D" and el: "e < length h"
    and k: "isEpsilon (kind (h ! e))" and p: "prevStates (h ! e) = [p]"
  shows "bypassed e h (mergePrevState e h)"
  unfolding bypassed_def
proof (intro conjI allI impI)
  show "length (mergePrevState e h) = length h" by (simp add: mergePrevState_frame)
  show "e < length h" by (rule el)
  show "isEpsilon (kind (h ! e))" by (rule k)
  from el show "nextStates (mergePrevState e h ! e) = []" by (simp add: nextStates_mergePrevState)
next
  fix u
  show "kind (mergePrevState e h ! u) = kind (h ! u)" by (simp add: mergePrevState_frame)
next
  fix u
  assume ul: "u < length h" and ue: "u \<noteq> e"
  show "set (nextStates (mergePrevState e h ! u)) =
      set (nextStates (h ! u)) - {e} \<union>
      (if e \<in> set (nextStates (h ! u)) then set (nextStates (h ! e)) else {})"
  proof (cases "u = p")
    case True
    with ul ue p show ?thesis
      by (simp add: nextStates_mergePrevState set_spliceStates)
  next
    case False
    have "e \<notin> set (nextStates (h ! u))"
    proof
      assume "e \<in> set (nextStates (h ! u))"
      from syncHeap_back_edge [OF s ul this eD] p False show False by simp
    qed
    with False ue p show ?thesis
      by (simp add: nextStates_mergePrevState)
  qed
qed

lemma mergePrevState_sync:
  assumes s: "syncHeap D h" and eD: "e \<notin> D" and el: "e < length h"
    and p: "prevStates (h ! e) = [p]"
  shows "syncHeap (insert e D) (mergePrevState e h)"
proof (rule syncHeapI)
  fix u v
  assume "u < length (mergePrevState e h)"
  then have ul: "u < length h" by (simp add: mergePrevState_frame)
  assume v: "v \<in> set (nextStates (mergePrevState e h ! u))"
  from v el have ue: "u \<noteq> e" by (auto simp: nextStates_mergePrevState)
  from v ue p have c: "v \<in> set (nextStates (h ! u)) \<or>
      (u = p \<and> e \<in> set (nextStates (h ! u)) \<and> v \<in> set (nextStates (h ! e)))"
    by (auto simp: nextStates_mergePrevState set_spliceStates split: if_splits)
  from c syncHeap_next_bound [OF s ul] syncHeap_next_bound [OF s el]
  have vl: "v < length h" by blast
  then show "v < length (mergePrevState e h)" by (simp add: mergePrevState_frame)
  assume "v \<notin> insert e D"
  then have ve: "v \<noteq> e" and vD: "v \<notin> D" by simp_all
  from c show "u \<in> set (prevStates (mergePrevState e h ! v))"
  proof
    assume "v \<in> set (nextStates (h ! u))"
    from syncHeap_back_edge [OF s ul this vD] ue ve show ?thesis
      by (simp add: prevStates_mergePrevState set_spliceStates)
  next
    assume d: "u = p \<and> e \<in> set (nextStates (h ! u)) \<and> v \<in> set (nextStates (h ! e))"
    then have "v \<in> set (nextStates (h ! e))" by simp
    from syncHeap_back_edge [OF s el this vD] d ve vl p show ?thesis
      by (simp add: prevStates_mergePrevState set_spliceStates)
  qed
next
  fix u v
  assume "u < length (mergePrevState e h)"
  then have ul: "u < length h" by (simp add: mergePrevState_frame)
  assume v: "v \<in> set (prevStates (mergePrevState e h ! u))"
  from p have "p \<in> set (prevStates (h ! e))" by simp
  from syncHeap_prev_bound [OF s el this] have pl: "p < length h" .
  from v p have "v \<in> set (prevStates (h ! u)) \<or> v = p"
    by (auto simp: prevStates_mergePrevState set_spliceStates split: if_splits)
  with syncHeap_prev_bound [OF s ul] pl have "v < length h" by blast
  then show "v < length (mergePrevState e h)" by (simp add: mergePrevState_frame)
qed

lemma mergeNextState_bypassed:
  assumes s: "syncHeap D h" and eD: "e \<notin> D" and el: "e < length h"
    and k: "isEpsilon (kind (h ! e))" and n: "nextStates (h ! e) = [n]"
  shows "bypassed e h (mergeNextState e h)"
  unfolding bypassed_def
proof (intro conjI allI impI)
  show "length (mergeNextState e h) = length h" by (simp add: mergeNextState_frame)
  show "e < length h" by (rule el)
  show "isEpsilon (kind (h ! e))" by (rule k)
  from el show "nextStates (mergeNextState e h ! e) = []" by (simp add: nextStates_mergeNextState)
next
  fix u
  show "kind (mergeNextState e h ! u) = kind (h ! u)" by (simp add: mergeNextState_frame)
next
  fix u
  assume ul: "u < length h" and ue: "u \<noteq> e"
  show "set (nextStates (mergeNextState e h ! u)) =
      set (nextStates (h ! u)) - {e} \<union>
      (if e \<in> set (nextStates (h ! u)) then set (nextStates (h ! e)) else {})"
  proof (cases "u \<in> set (prevStates (h ! e))")
    case True
    with ul ue n show ?thesis
      by (simp add: nextStates_mergeNextState set_spliceStates)
  next
    case False
    have "e \<notin> set (nextStates (h ! u))"
    proof
      assume "e \<in> set (nextStates (h ! u))"
      from syncHeap_back_edge [OF s ul this eD] False show False by simp
    qed
    with False ue show ?thesis
      by (simp add: nextStates_mergeNextState)
  qed
qed

lemma mergeNextState_sync:
  assumes s: "syncHeap D h" and eD: "e \<notin> D" and el: "e < length h"
    and n: "nextStates (h ! e) = [n]"
  shows "syncHeap (insert e D) (mergeNextState e h)"
proof (rule syncHeapI)
  fix u v
  assume "u < length (mergeNextState e h)"
  then have ul: "u < length h" by (simp add: mergeNextState_frame)
  assume v: "v \<in> set (nextStates (mergeNextState e h ! u))"
  from v el have ue: "u \<noteq> e" by (auto simp: nextStates_mergeNextState)
  from v ue n have c: "v \<in> set (nextStates (h ! u)) \<or>
      (e \<in> set (nextStates (h ! u)) \<and> v = n)"
    by (auto simp: nextStates_mergeNextState set_spliceStates split: if_splits)
  from n have ne: "n \<in> set (nextStates (h ! e))" by simp
  from syncHeap_next_bound [OF s el ne] have nl: "n < length h" .
  from c syncHeap_next_bound [OF s ul] nl have vl: "v < length h" by blast
  then show "v < length (mergeNextState e h)" by (simp add: mergeNextState_frame)
  assume "v \<notin> insert e D"
  then have ve: "v \<noteq> e" and vD: "v \<notin> D" by simp_all
  from c show "u \<in> set (prevStates (mergeNextState e h ! v))"
  proof
    assume "v \<in> set (nextStates (h ! u))"
    from syncHeap_back_edge [OF s ul this vD] ue ve show ?thesis
      by (auto simp: prevStates_mergeNextState set_spliceStates)
  next
    assume d: "e \<in> set (nextStates (h ! u)) \<and> v = n"
    then have "e \<in> set (nextStates (h ! u))" by simp
    from syncHeap_back_edge [OF s ul this eD] have up: "u \<in> set (prevStates (h ! e))" .
    from d vD have "n \<notin> D" by simp
    from syncHeap_back_edge [OF s el ne this] have "e \<in> set (prevStates (h ! n))" .
    with up d ve nl n show ?thesis
      by (simp add: prevStates_mergeNextState set_spliceStates)
  qed
next
  fix u v
  assume "u < length (mergeNextState e h)"
  then have ul: "u < length h" by (simp add: mergeNextState_frame)
  assume v: "v \<in> set (prevStates (mergeNextState e h ! u))"
  then have "v \<in> set (prevStates (h ! u)) \<or> v \<in> set (prevStates (h ! e))"
    by (auto simp: prevStates_mergeNextState set_spliceStates split: if_splits)
  with syncHeap_prev_bound [OF s ul] syncHeap_prev_bound [OF s el] have "v < length h" by blast
  then show "v < length (mergeNextState e h)" by (simp add: mergeNextState_frame)
qed

lemma syncHeap_mono: "syncHeap D h \<Longrightarrow> syncHeap (insert e D) h"
  by (rule syncHeapI) (auto dest: syncHeap_next_bound syncHeap_back_edge syncHeap_prev_bound)

lemma length_1_conv: "length xs = Suc 0 \<longleftrightarrow> (\<exists>x. xs = [x])"
  by (cases xs) auto

lemma removeEpsilon_step:
  assumes s: "syncHeap D h" and eD: "e \<notin> D" and el: "e < length h"
  shows "syncHeap (insert e D) (removeEpsilon e h) \<and>
         (removeEpsilon e h = h \<or> bypassed e h (removeEpsilon e h))"
proof (cases "isEpsilon (kind (h ! e))")
  case False
  with syncHeap_mono [OF s] show ?thesis by (simp add: removeEpsilon_def)
next
  case eps: True
  show ?thesis
  proof (cases "length (prevStates (h ! e)) = 1 \<and> length (nextStates (h ! e)) > 0")
    case True
    then obtain p where p: "prevStates (h ! e) = [p]" by (auto simp: length_1_conv)
    from True eps have "removeEpsilon e h = mergePrevState e h" by (simp add: removeEpsilon_def)
    with mergePrevState_sync [OF s eD el p] mergePrevState_bypassed [OF s eD el eps p]
    show ?thesis by simp
  next
    case notPrev: False
    show ?thesis
    proof (cases "length (nextStates (h ! e)) = 1 \<and> length (prevStates (h ! e)) > 0")
      case True
      then obtain n where n: "nextStates (h ! e) = [n]" by (auto simp: length_1_conv)
      from True notPrev eps have "removeEpsilon e h = mergeNextState e h"
        by (simp add: removeEpsilon_def)
      with mergeNextState_sync [OF s eD el n] mergeNextState_bypassed [OF s eD el eps n]
      show ?thesis by simp
    next
      case False
      with notPrev eps have "removeEpsilon e h = h" by (auto simp: removeEpsilon_def)
      with syncHeap_mono [OF s] show ?thesis by simp
    qed
  qed
qed

section \<open>Epsilon removal preserves the verdict\<close>

lemma syncHeap_nextBounded: "syncHeap D h \<Longrightarrow> nextBounded h"
  unfolding nextBounded_def by (blast dest: syncHeap_next_bound)

lemma fold_removeEpsilon_accepts:
  assumes "syncHeap D h" and "distinct xs" and "set xs \<inter> D = {}"
    and "\<forall>e\<in>set xs. e < length h \<and> e \<noteq> t \<and> e \<noteq> s"
  shows "syncHeap (D \<union> set xs) (fold removeEpsilon xs h) \<and>
         (accepts zero (fold removeEpsilon xs h) t s w \<longleftrightarrow> accepts zero h t s w)"
  using assms
proof (induction xs arbitrary: h D)
  case Nil
  then show ?case by simp
next
  case (Cons e xs)
  let ?h1 = "removeEpsilon e h"
  from Cons.prems have eD: "e \<notin> D" and el: "e < length h" and et: "e \<noteq> t" and es: "e \<noteq> s"
    by auto
  from removeEpsilon_step [OF Cons.prems(1) eD el]
  have s1: "syncHeap (insert e D) ?h1" and b: "?h1 = h \<or> bypassed e h ?h1" by simp_all
  from b have acc: "accepts zero ?h1 t s w \<longleftrightarrow> accepts zero h t s w"
  proof
    assume "?h1 = h"
    then show ?thesis by simp
  next
    assume "bypassed e h ?h1"
    from bypassed_accepts [OF this et [symmetric] es [symmetric]] show ?thesis .
  qed
  from Cons.prems have "distinct xs" "set xs \<inter> insert e D = {}"
    "\<forall>x\<in>set xs. x < length ?h1 \<and> x \<noteq> t \<and> x \<noteq> s"
    by (auto simp: removeEpsilon_frame)
  from Cons.IH [OF s1 this] acc show ?case by simp
qed

lemma acceptString_accepts:
  assumes "wfAutomaton a"
  shows "acceptString zero a w = Inr (accepts zero (heap a) 1 0 w)"
proof -
  from assms have "syncHeap {} (heap a)" by (simp add: wfAutomaton_def)
  then have nb: "nextBounded (heap a)" by (rule syncHeap_nextBounded)
  from assms executorRun_accepts [OF nb, of zero 1 "[0]" w] show ?thesis
    by (auto simp: acceptString_def wfAutomaton_def simp del: epsClosure.simps)
qed

lemma removeEpsilons_wf:
  assumes "wfAutomaton a"
  shows "acceptString zero (removeEpsilons a) w = Inr (accepts zero (heap a) 1 0 w)"
proof -
  let ?xs = "allocatedStates a"
  from assms have s: "syncHeap {} (heap a)" and d: "distinct ?xs"
    and r: "\<forall>e\<in>set ?xs. e < length (heap a) \<and> e \<noteq> 1 \<and> e \<noteq> 0"
    by (auto simp: wfAutomaton_def)
  from fold_removeEpsilon_accepts [OF s d _ r, of zero w]
  have s': "syncHeap (set ?xs) (fold removeEpsilon ?xs (heap a))"
    and acc: "accepts zero (fold removeEpsilon ?xs (heap a)) 1 0 w \<longleftrightarrow> accepts zero (heap a) 1 0 w"
    by simp_all
  from s' have "nextBounded (fold removeEpsilon ?xs (heap a))" by (rule syncHeap_nextBounded)
  then have nb: "nextBounded (heap (removeEpsilons a))"
    by (simp add: removeEpsilons_def)
  from assms executorRun_accepts [OF nb, of zero 1 "[0]" w] acc show ?thesis
    by (auto simp: acceptString_def wfAutomaton_def removeEpsilons_def fold_removeEpsilon_frame
        simp del: epsClosure.simps)
qed

text \<open>
  C3. For every pattern that the driver builds into an automaton, and every input, the
  verdict of \<open>acceptString\<close> on the automaton after \<open>removeEpsilons\<close>, which is the
  automaton that \<open>compile\<close> returns, is the verdict on the automaton before it.
\<close>

theorem removeEpsilons_preserves_verdict:
  assumes "build pattern Automaton_new = Inr a"
  shows "compile pattern Automaton_new = Inr (removeEpsilons a) \<and>
         acceptString zero (removeEpsilons a) input = acceptString zero a input"
  using assms removeEpsilons_wf [OF build_wf [OF assms]] acceptString_accepts [OF build_wf [OF assms]]
  by (simp add: compile_def)

theorem removeEpsilons_preserves_verdict_witness:
  "\<exists>a. build ''a+'' Automaton_new = Inr a \<and>
       compile ''a+'' Automaton_new = Inr (removeEpsilons a) \<and>
       acceptString (CHR 0x00) (removeEpsilons a) ''aa'' = acceptString (CHR 0x00) a ''aa''"
proof -
  obtain a where a: "build ''a+'' Automaton_new = Inr a"
    by (simp add: build_def compileSymbol_def pushState_def pushJump_def endGroup_def
        AutomatonBuilder_new_def Automaton_new_def createState_def Automaton_pushState_def
        addNextState_def frameRead_def frameWrite_def maxNumGroups_def int8_def)
  from removeEpsilons_preserves_verdict [OF a] a show ?thesis by blast
qed


section \<open>Words that reach a state\<close>

lemma emits_Epsilon [simp]: "emits zero Epsilon v \<longleftrightarrow> v = []"
  by (simp add: emits_def)

lemma emits_Symbol [simp]: "emits zero (Symbol a) v \<longleftrightarrow> v = [a]"
  by (auto simp: emits_def)

lemma accepts_snoc:
  assumes "accepts zero h x s w" and "x < length h" and "emits zero (kind (h ! x)) v"
    and "t \<in> set (nextStates (h ! x))"
  shows "accepts zero h t s (w @ v)"
  using assms
proof (induction rule: accepts.induct)
  case accepts_end
  from accepts_end(2) show ?case
    unfolding emits_def
  proof (elim disjE conjE exE)
    assume "isEpsilon (kind (h ! x))" and "v = []"
    with accepts.accepts_eps [OF accepts_end(1) _ accepts_end(3) accepts.accepts_end]
    show ?thesis by simp
  next
    fix c
    assume "matchSymbol zero (kind (h ! x)) c" and "v = [c]"
    with accepts.accepts_sym [OF accepts_end(1) _ accepts_end(3) accepts.accepts_end]
    show ?thesis by simp
  qed
next
  case (accepts_eps u y w)
  from accepts.accepts_eps [OF accepts_eps.hyps(1-3) accepts_eps.IH [OF accepts_eps.prems]]
  show ?case .
next
  case (accepts_sym u c y w)
  from accepts.accepts_sym [OF accepts_sym.hyps(1-3) accepts_sym.IH [OF accepts_sym.prems]]
  show ?case by simp
qed

lemma accepts_last:
  assumes "accepts zero h t s w"
  shows "s = t \<and> w = [] \<or>
    (\<exists>x w1 v. accepts zero h x s w1 \<and> x < length h \<and> emits zero (kind (h ! x)) v \<and>
        t \<in> set (nextStates (h ! x)) \<and> w = w1 @ v)"
  using assms
proof (induction rule: accepts.induct)
  case accepts_end
  show ?case by simp
next
  case (accepts_eps u y w)
  from accepts_eps.IH show ?case
  proof (elim disjE conjE exE)
    assume "y = t" and "w = []"
    with accepts_eps.hyps(1-3) have "accepts zero h u u [] \<and> u < length h \<and>
        emits zero (kind (h ! u)) [] \<and> t \<in> set (nextStates (h ! u)) \<and> w = [] @ []"
      by (simp add: emits_def accepts.accepts_end)
    then show ?thesis by blast
  next
    fix x w1 v
    assume "accepts zero h x y w1" and r: "x < length h" "emits zero (kind (h ! x)) v"
      "t \<in> set (nextStates (h ! x))" "w = w1 @ v"
    from accepts.accepts_eps [OF accepts_eps.hyps(1-3) this(1)] r show ?thesis by blast
  qed
next
  case (accepts_sym u c y w)
  from accepts_sym.IH show ?case
  proof (elim disjE conjE exE)
    assume "y = t" and "w = []"
    with accepts_sym.hyps(1-3) have "accepts zero h u u [] \<and> u < length h \<and>
        emits zero (kind (h ! u)) [c] \<and> t \<in> set (nextStates (h ! u)) \<and> c # w = [] @ [c]"
      by (auto simp: emits_def accepts.accepts_end)
    then show ?thesis by blast
  next
    fix x w1 v
    assume "accepts zero h x y w1" and r: "x < length h" "emits zero (kind (h ! x)) v"
      "t \<in> set (nextStates (h ! x))" "w = w1 @ v"
    from accepts.accepts_sym [OF accepts_sym.hyps(1-3) this(1)] r
    have "accepts zero h x u (c # w1) \<and> x < length h \<and> emits zero (kind (h ! x)) v \<and>
        t \<in> set (nextStates (h ! x)) \<and> c # w = (c # w1) @ v"
      by simp
    then show ?thesis by blast
  qed
qed

lemma accepts_single_pred:
  assumes "t \<noteq> 0" and "x < length h" and "t \<in> set (nextStates (h ! x))"
    and "\<forall>u<length h. t \<in> set (nextStates (h ! u)) \<longrightarrow> u = x"
  shows "accepts zero h t 0 w \<longleftrightarrow> leaves zero h x w"
proof
  assume "accepts zero h t 0 w"
  from accepts_last [OF this] assms(1,4) show "leaves zero h x w"
    unfolding leaves_def by blast
next
  assume "leaves zero h x w"
  then obtain w1 v where "accepts zero h x 0 w1" "emits zero (kind (h ! x)) v" "w = w1 @ v"
    unfolding leaves_def by blast
  with accepts_snoc [OF this(1) assms(2) this(2) assms(3)] show "accepts zero h t 0 w" by simp
qed

lemma extends_accepts_new:
  assumes e: "extends N h h'" and t: "t \<notin> N" and a: "accepts zero h' t u w"
  shows "u \<notin> N \<and> accepts zero h t u w"
  using a
proof (induction rule: accepts.induct)
  case accepts_end
  from t show ?case by (simp add: accepts.accepts_end)
next
  case (accepts_eps u v w)
  from accepts_eps.IH have vN: "v \<notin> N" and av: "accepts zero h t v w" by simp_all
  from e accepts_eps.hyps(1,3) vN have uN: "u \<notin> N" unfolding extends_def by blast
  with e accepts_eps.hyps(1-3) vN have "u < length h" "isEpsilon (kind (h ! u))"
    "v \<in> set (nextStates (h ! u))"
    unfolding extends_def by auto
  from accepts.accepts_eps [OF this av] uN show ?case by simp
next
  case (accepts_sym u c v w)
  from accepts_sym.IH have vN: "v \<notin> N" and av: "accepts zero h t v w" by simp_all
  from e accepts_sym.hyps(1,3) vN have uN: "u \<notin> N" unfolding extends_def by blast
  with e accepts_sym.hyps(1-3) vN have "u < length h" "matchSymbol zero (kind (h ! u)) c"
    "v \<in> set (nextStates (h ! u))"
    unfolding extends_def by auto
  from accepts.accepts_sym [OF this av] uN show ?case by simp
qed

lemma extends_accepts_old:
  assumes e: "extends N h h'" and a: "accepts zero h t u w"
  shows "accepts zero h' t u w"
  using a
proof (induction rule: accepts.induct)
  case accepts_end
  show ?case by (rule accepts.accepts_end)
next
  case (accepts_eps u v w)
  from e accepts_eps.hyps(1,3) have uN: "u \<notin> N" unfolding extends_def by auto
  from e accepts_eps.hyps(1) have ul: "u < length h'" unfolding extends_def by simp
  from e ul uN have k: "kind (h' ! u) = kind (h ! u)"
    and n: "set (nextStates (h' ! u)) - N = set (nextStates (h ! u))"
    unfolding extends_def by blast+
  from n accepts_eps.hyps(3) have "v \<in> set (nextStates (h' ! u))" by blast
  from accepts.accepts_eps [OF ul _ this accepts_eps.IH] k accepts_eps.hyps(2)
  show ?case by simp
next
  case (accepts_sym u c v w)
  from e accepts_sym.hyps(1,3) have uN: "u \<notin> N" unfolding extends_def by auto
  from e accepts_sym.hyps(1) have ul: "u < length h'" unfolding extends_def by simp
  from e ul uN have k: "kind (h' ! u) = kind (h ! u)"
    and n: "set (nextStates (h' ! u)) - N = set (nextStates (h ! u))"
    unfolding extends_def by blast+
  from n accepts_sym.hyps(3) have "v \<in> set (nextStates (h' ! u))" by blast
  from accepts.accepts_sym [OF ul _ this accepts_sym.IH] k accepts_sym.hyps(2)
  show ?case by simp
qed

lemma extends_leaves:
  assumes e: "extends N h h'" and x: "x \<notin> N" "x < length h'"
  shows "leaves zero h' x w \<longleftrightarrow> leaves zero h x w"
proof -
  from e x have k: "kind (h' ! x) = kind (h ! x)" unfolding extends_def by auto
  have "accepts zero h' x 0 w1 \<longleftrightarrow> accepts zero h x 0 w1" for w1
    using extends_accepts_new [OF e x(1)] extends_accepts_old [OF e] by blast
  with k show ?thesis by (simp add: leaves_def)
qed

section \<open>The automaton of a literal pattern\<close>

lemma pushState_heap:
  assumes "currentState b = Some c" and "c < length (heap (automaton b))"
    and "0 \<le> currentGroup b" and "currentGroup b < maxNumGroups"
  shows "\<exists>b'. pushState k b = Inr b' \<and>
    heap (automaton b') = pushedHeap c k (heap (automaton b)) \<and>
    currentState b' = Some (Suc (length (heap (automaton b)))) \<and>
    groupEnd b' =
      (groupEnd b)(nat (currentGroup b) := Some (Suc (length (heap (automaton b))))) \<and>
    currentGroup b' = currentGroup b"
  using assms
  by (simp add: pushState_def Automaton_pushState_def createState_def addNextState_def
      frameWrite_def pushedHeap_def)

lemma length_pushedHeap [simp]: "length (pushedHeap c k h) = length h + 2"
  by (simp add: pushedHeap_def)

lemma kind_pushedHeap:
  assumes "c < length h"
  shows "kind (pushedHeap c k h ! u) =
     (if u < length h then kind (h ! u) else if u = length h then Epsilon
      else if u = Suc (length h) then k else kind (pushedHeap c k h ! u))"
  using assms
  by (auto simp: pushedHeap_def nth_append newState_def)

lemma nextStates_pushedHeap:
  assumes "c < length h" and "u < length h + 2"
  shows "nextStates (pushedHeap c k h ! u) =
     (if u = c then nextStates (h ! c) @ [length h]
      else if u = length h then [Suc (length h)]
      else if u = Suc (length h) then []
      else nextStates (h ! u))"
  using assms
  by (auto simp: pushedHeap_def nextStates_linkStates nth_append newState_def)

lemma leaves_Epsilon:
  "kind (h ! x) = Epsilon \<Longrightarrow> leaves zero h x w \<longleftrightarrow> accepts zero h x 0 w"
  by (simp add: leaves_def)

lemma leaves_Symbol:
  "kind (h ! x) = Symbol a \<Longrightarrow>
   leaves zero h x w \<longleftrightarrow> (\<exists>w1. accepts zero h x 0 w1 \<and> w = w1 @ [a])"
  by (simp add: leaves_def)

lemma wfAutomaton_next_bound:
  "wfAutomaton a \<Longrightarrow> u < length (heap a) \<Longrightarrow> v \<in> set (nextStates (heap a ! u)) \<Longrightarrow>
   v < length (heap a)"
  by (auto simp: wfAutomaton_def dest: syncHeap_next_bound)

lemma pushedHeap_extends:
  assumes c: "c < length h" and nc: "nextStates (h ! c) = []"
    and nbh: "nextBounded h"
  shows "extends {length h, Suc (length h)} h (pushedHeap c k h)"
  unfolding extends_def
proof (intro conjI allI impI)
  have nb: "\<And>u v. u < length h \<Longrightarrow> v \<in> set (nextStates (h ! u)) \<Longrightarrow> v < length h"
    using nbh unfolding nextBounded_def by blast
  show "length h \<le> length (pushedHeap c k h)" by simp
next
  fix u
  assume "u < length (pushedHeap c k h)" and "u \<in> {length h, Suc (length h)}"
  with c show "set (nextStates (pushedHeap c k h ! u)) \<subseteq> {length h, Suc (length h)}"
    by (auto simp: nextStates_pushedHeap)
next
  fix u
  assume u: "u < length (pushedHeap c k h)" and uN: "u \<notin> {length h, Suc (length h)}"
  then show ul: "u < length h" by auto
  with c show "kind (pushedHeap c k h ! u) = kind (h ! u)" by (simp add: kind_pushedHeap)
  show "set (nextStates (pushedHeap c k h ! u)) - {length h, Suc (length h)} =
      set (nextStates (h ! u))"
  proof (cases "u = c")
    case True
    with c nc show ?thesis by (simp add: nextStates_pushedHeap)
  next
    case False
    from nbh ul have "set (nextStates (h ! u)) \<inter> {length h, Suc (length h)} = {}"
      unfolding nextBounded_def by fastforce
    with False c ul uN show ?thesis
      by (auto simp: nextStates_pushedHeap)
  qed
next
  fix u
  assume "u < length h" and "u \<in> {length h, Suc (length h)}"
  then show "nextStates (h ! u) = []" by auto
qed

lemma pushedHeap_language:
  assumes c: "c < length h" and nc: "nextStates (h ! c) = []" and len: "2 \<le> length h"
    and nbh: "nextBounded h"
    and lang: "\<forall>w. leaves zero h c w \<longleftrightarrow> w = S"
  shows "leaves zero (pushedHeap c (Symbol x) h) (Suc (length h)) w \<longleftrightarrow> w = S @ [x]"
proof -
  let ?n = "length h"
  let ?h' = "pushedHeap c (Symbol x) h"
  have nb: "\<And>u v. u < length h \<Longrightarrow> v \<in> set (nextStates (h ! u)) \<Longrightarrow> v < length h"
    using nbh unfolding nextBounded_def by blast
  have ext: "extends {?n, Suc ?n} h ?h'"
    by (rule pushedHeap_extends [OF c nc nbh])
  have kn: "kind (?h' ! ?n) = Epsilon" and ks: "kind (?h' ! Suc ?n) = Symbol x"
    using c by (simp_all add: kind_pushedHeap)
  have nx: "nextStates (?h' ! u) =
     (if u = c then [?n] else if u = ?n then [Suc ?n] else if u = Suc ?n then []
      else nextStates (h ! u))" if "u < ?n + 2" for u
    using that c nc by (simp add: nextStates_pushedHeap)
  have old: "v < ?n" if "u < ?n" "u \<noteq> c" "v \<in> set (nextStates (?h' ! u))" for u v
  proof -
    from that nx [of u] have "v \<in> set (nextStates (h ! u))" by simp
    from nb [OF that(1) this] show ?thesis .
  qed
  have predS: "\<forall>u<length ?h'. Suc ?n \<in> set (nextStates (?h' ! u)) \<longrightarrow> u = ?n"
  proof (intro allI impI)
    fix u
    assume u: "u < length ?h'" and m: "Suc ?n \<in> set (nextStates (?h' ! u))"
    show "u = ?n"
    proof (rule ccontr)
      assume ne: "u \<noteq> ?n"
      from u have u2: "u < ?n + 2" by simp
      show False
      proof (cases "u = c \<or> u = Suc ?n")
        case True
        with m nx [OF u2] ne show False by (auto split: if_splits)
      next
        case False
        with u ne have "u < ?n" by simp
        from old [OF this _ m] False show False by simp
      qed
    qed
  qed
  have predE: "\<forall>u<length ?h'. ?n \<in> set (nextStates (?h' ! u)) \<longrightarrow> u = c"
  proof (intro allI impI)
    fix u
    assume u: "u < length ?h'" and m: "?n \<in> set (nextStates (?h' ! u))"
    show "u = c"
    proof (rule ccontr)
      assume ne: "u \<noteq> c"
      from u have u2: "u < ?n + 2" by simp
      show False
      proof (cases "u = ?n \<or> u = Suc ?n")
        case True
        with m nx [OF u2] ne show False by (auto split: if_splits)
      next
        case False
        with u have "u < ?n" by simp
        from old [OF this ne m] show False by simp
      qed
    qed
  qed
  have mS: "Suc ?n \<in> set (nextStates (?h' ! ?n))" using nx [of ?n] c by simp
  have mE: "?n \<in> set (nextStates (?h' ! c))" using nx [of c] c by simp
  have a1: "accepts zero ?h' (Suc ?n) 0 w1 \<longleftrightarrow> leaves zero ?h' ?n w1" for w1
    by (rule accepts_single_pred [OF _ _ mS predS]) simp_all
  have a2: "accepts zero ?h' ?n 0 w1 \<longleftrightarrow> leaves zero ?h' c w1" for w1
    using len c by (intro accepts_single_pred [OF _ _ mE predE]) auto
  have a3: "leaves zero ?h' c w1 \<longleftrightarrow> leaves zero h c w1" for w1
    using c by (intro extends_leaves [OF ext]) simp_all
  have "accepts zero ?h' (Suc ?n) 0 w1 \<longleftrightarrow> w1 = S" for w1
    using a1 [of w1] a2 [of w1] a3 [of w1] lang leaves_Epsilon [OF kn, of zero w1] by simp
  then show ?thesis
    by (auto simp: leaves_Symbol [OF ks])
qed

lemma literalInv_pushState:
  assumes inv: "literalInv zero S b"
  shows "\<exists>b'. pushState (Symbol x) b = Inr b' \<and> literalInv zero (S @ [x]) b'"
proof -
  let ?h = "heap (automaton b)"
  let ?n = "length ?h"
  from inv obtain c where wf: "wfAutomaton (automaton b)" and g: "currentGroup b = 1"
    and ge: "groupEnd b 0 = Some 1" and n1: "nextStates (?h ! 1) = []"
    and in1: "\<forall>u<?n. 1 \<notin> set (nextStates (?h ! u))"
    and c: "currentState b = Some c" "c < ?n" "c \<noteq> 1" and nc: "nextStates (?h ! c) = []"
    and lang: "\<forall>w. leaves zero ?h c w \<longleftrightarrow> w = S"
    unfolding literalInv_def by blast
  from wf have len: "2 \<le> ?n" by (simp add: wfAutomaton_def)
  from wf have "syncHeap {} ?h" by (simp add: wfAutomaton_def)
  then have nb: "nextBounded ?h" by (rule syncHeap_nextBounded)
  from g have gr: "0 \<le> currentGroup b" "currentGroup b < maxNumGroups"
    by (simp_all add: maxNumGroups_def)
  from pushState_heap [OF c(1,2) gr, of "Symbol x"] g obtain b' where
    b': "pushState (Symbol x) b = Inr b'"
    and h': "heap (automaton b') = pushedHeap c (Symbol x) ?h"
    and c': "currentState b' = Some (Suc ?n)"
    and ge': "groupEnd b' = (groupEnd b)(nat 1 := Some (Suc ?n))"
    and g': "currentGroup b' = 1"
    by auto
  let ?h' = "pushedHeap c (Symbol x) ?h"
  have nx: "nextStates (?h' ! u) =
     (if u = c then [?n] else if u = ?n then [Suc ?n] else if u = Suc ?n then []
      else nextStates (?h ! u))" if "u < ?n + 2" for u
    using that c(2) nc by (simp add: nextStates_pushedHeap)
  have "wfAutomaton (automaton b')" by (rule pushState_wf [OF wf b'])
  moreover from ge ge' have "groupEnd b' 0 = Some 1" by simp
  moreover have "nextStates (?h' ! 1) = []"
    using nx [of 1] len c(3) n1 by simp
  moreover have "\<forall>u<length ?h'. 1 \<notin> set (nextStates (?h' ! u))"
  proof (intro allI impI)
    fix u
    assume "u < length ?h'"
    then have u: "u < ?n + 2" by simp
    show "1 \<notin> set (nextStates (?h' ! u))"
    proof (cases "u < ?n")
      case True
      with in1 nx [OF u] len show ?thesis by auto
    next
      case False
      with u nx [OF u] len c(2) show ?thesis by auto
    qed
  qed
  moreover have "nextStates (?h' ! Suc ?n) = []"
    using nx [of "Suc ?n"] c(2) by simp
  moreover have "\<forall>w. leaves zero ?h' (Suc ?n) w \<longleftrightarrow> w = S @ [x]"
    using pushedHeap_language [OF c(2) nc len nb lang] by blast
  ultimately have "literalInv zero (S @ [x]) b'"
    unfolding literalInv_def using h' c' g' len by auto
  with b' show ?thesis by blast
qed

lemma literalInv_compileLoop:
  assumes "literalInv zero S b" and "\<forall>c\<in>set cs. isLiteral c"
  shows "\<exists>b'. compileLoop cs b = Inr b' \<and> literalInv zero (S @ cs) b'"
  using assms
proof (induction cs arbitrary: S b)
  case Nil
  then show ?case by simp
next
  case (Cons c cs)
  from Cons.prems(2) have "compileSymbol c b = pushState (Symbol c) b"
    by (simp add: compileSymbol_def isLiteral_def)
  with literalInv_pushState [OF Cons.prems(1), of c] obtain b1 where
    1: "compileSymbol c b = Inr b1" and 2: "literalInv zero (S @ [c]) b1"
    by auto
  from Cons.prems(2) have "\<forall>c\<in>set cs. isLiteral c" by simp
  from Cons.IH [OF 2 this] 1 show ?case by simp
qed

lemma accepts_no_edges:
  assumes "nextStates (h ! u) = []"
  shows "accepts zero h t u w \<longleftrightarrow> u = t \<and> w = []"
proof
  assume "accepts zero h t u w"
  then show "u = t \<and> w = []"
    using assms by cases simp_all
next
  assume "u = t \<and> w = []"
  then show "accepts zero h t u w" by (simp add: accepts_end)
qed

lemma literalInv_new: "literalInv zero [] (AutomatonBuilder_new Automaton_new)"
proof -
  let ?h = "heap (Automaton_new :: 'a Automaton)"
  have h: "?h = [newState Epsilon, newState Epsilon]"
    by (simp add: Automaton_new_def createState_def)
  have "nextStates (?h ! 0) = []" "kind (?h ! 0) = Epsilon"
    by (simp_all add: h newState_def)
  then have "leaves zero ?h 0 w \<longleftrightarrow> w = []" for w
    by (simp add: leaves_Epsilon accepts_no_edges)
  moreover have "\<forall>u<length ?h. 1 \<notin> set (nextStates (?h ! u))"
    by (simp add: h newState_def less_Suc_eq)
  moreover have "nextStates (?h ! 1) = []" by (simp add: h newState_def)
  ultimately show ?thesis
    unfolding literalInv_def
    using wfAutomaton_new [where 'a = 'a]
    by (auto simp: AutomatonBuilder_new_def wfAutomaton_def h newState_def)
qed

lemma literalInv_endGroup:
  assumes inv: "literalInv zero S b"
  shows "\<exists>b'. endGroup b = Inr b' \<and> wfAutomaton (automaton b') \<and>
           (\<forall>w. accepts zero (heap (automaton b')) 1 0 w \<longleftrightarrow> w = S)"
proof -
  let ?h = "heap (automaton b)"
  let ?n = "length ?h"
  from inv obtain c where wf: "wfAutomaton (automaton b)" and g: "currentGroup b = 1"
    and ge: "groupEnd b 0 = Some (Suc 0)" and n1: "nextStates (?h ! Suc 0) = []"
    and in1: "\<forall>u<?n. Suc 0 \<notin> set (nextStates (?h ! u))"
    and c: "currentState b = Some c" "c < ?n" "c \<noteq> Suc 0" and nc: "nextStates (?h ! c) = []"
    and lang: "\<forall>w. leaves zero ?h c w \<longleftrightarrow> w = S"
    unfolding literalInv_def by auto
  from wf have len: "2 \<le> ?n" by (simp add: wfAutomaton_def)
  then have l1: "Suc 0 < ?n" by simp
  let ?h' = "linkStates c (Suc 0) ?h"
  from g ge c len obtain b' where b': "endGroup b = Inr b'"
    and h': "heap (automaton b') = ?h'"
    by (simp add: endGroup_def frameRead_def maxNumGroups_def addNextState_def)
  have nx: "nextStates (?h' ! u) = (if u = c then [Suc 0] else nextStates (?h ! u))" for u
    using c(2) l1 nc by (simp add: nextStates_linkStates)
  have kd: "kind (?h' ! u) = kind (?h ! u)" for u
    using c(2) l1 by simp
  have ext: "extends {Suc 0} ?h ?h'"
    unfolding extends_def
  proof (intro conjI allI impI)
    show "?n \<le> length ?h'" by simp
  next
    fix u
    assume "u < length ?h'" and "u \<in> {Suc 0}"
    with nx [of u] n1 c(3) show "set (nextStates (?h' ! u)) \<subseteq> {Suc 0}" by simp
  next
    fix u
    assume u: "u < length ?h'" and uN: "u \<notin> {Suc 0}"
    from u show ul: "u < ?n" by simp
    show "kind (?h' ! u) = kind (?h ! u)" by (rule kd)
    from in1 ul nc show "set (nextStates (?h' ! u)) - {Suc 0} = set (nextStates (?h ! u))"
      by (auto simp: nx)
  next
    fix u
    assume "u < ?n" and "u \<in> {Suc 0}"
    with n1 show "nextStates (?h ! u) = []" by simp
  qed
  have m: "Suc 0 \<in> set (nextStates (?h' ! c))" by (simp add: nx)
  have pred: "\<forall>u<length ?h'. Suc 0 \<in> set (nextStates (?h' ! u)) \<longrightarrow> u = c"
    using in1 by (auto simp: nx split: if_splits)
  have "accepts zero ?h' (Suc 0) 0 w \<longleftrightarrow> leaves zero ?h' c w" for w
    using c(2) by (intro accepts_single_pred [OF _ _ m pred]) simp_all
  moreover have "leaves zero ?h' c w \<longleftrightarrow> leaves zero ?h c w" for w
    using c(2,3) by (intro extends_leaves [OF ext]) simp_all
  ultimately have "\<forall>w. accepts zero ?h' (Suc 0) 0 w \<longleftrightarrow> w = S" using lang by simp
  with b' h' endGroup_wf [OF wf b'] show ?thesis by auto
qed

text \<open>
  C2. For every pattern \<open>S\<close> of literal characters, \<open>compile\<close> returns an automaton,
  and \<open>acceptString\<close> on it accepts an input if and only if the input is \<open>S\<close>: it rejects
  every proper extension of \<open>S\<close>, every input with an extra leading symbol, and every
  other input.
\<close>

theorem literal_identity:
  assumes "\<forall>c\<in>set S. isLiteral c"
  shows "\<exists>a. compile S Automaton_new = Inr a \<and>
           (\<forall>input. acceptString zero a input = Inr (input = S))"
proof -
  from literalInv_compileLoop [OF literalInv_new assms, of zero] obtain b where
    b: "compileLoop S (AutomatonBuilder_new Automaton_new) = Inr b" and inv: "literalInv zero S b"
    by auto
  from literalInv_endGroup [OF inv] obtain b' where b': "endGroup b = Inr b'"
    and wf: "wfAutomaton (automaton b')"
    and lang: "\<forall>w. accepts zero (heap (automaton b')) 1 0 w \<longleftrightarrow> w = S"
    by blast
  from b b' have "compile S Automaton_new = Inr (removeEpsilons (automaton b'))"
    by (simp add: compile_def build_def)
  moreover from removeEpsilons_wf [OF wf, of zero] lang
  have "\<forall>input. acceptString zero (removeEpsilons (automaton b')) input = Inr (input = S)"
    by simp
  ultimately show ?thesis by blast
qed

theorem literal_identity_witness:
  "isLiteral CHR ''a'' \<and> isLiteral CHR ''b'' \<and> isLiteral CHR ''c'' \<and>
   (\<exists>a. compile ''abc'' Automaton_new = Inr a \<and>
        accept a ''abc'' = Inr True \<and> accept a ''abcd'' = Inr False \<and>
        accept a '' abc'' = Inr False \<and> accept a [] = Inr False)"
proof -
  have l: "\<forall>c\<in>set ''abc''. isLiteral c" by (simp add: isLiteral_def)
  from literal_identity [OF l, of "CHR 0x00"] l show ?thesis
    by (auto simp: accept_def)
qed


section \<open>The closing parenthesis\<close>

lemma accepts_no_way_in:
  assumes wf: "wfAutomaton a" and p: "prevStates (heap a ! 1) = []"
  shows "\<not> accepts zero (heap a) 1 0 w"
proof
  assume "accepts zero (heap a) 1 0 w"
  from accepts_last [OF this] obtain x where x: "x < length (heap a)"
    and m: "1 \<in> set (nextStates (heap a ! x))"
    by auto
  from wf have "syncHeap {} (heap a)" by (simp add: wfAutomaton_def)
  from syncHeap_back_edge [OF this x m] p show False by simp
qed

text \<open>
  C1 at the pattern character \<open>)\<close>. On a new builder the driver's call for \<open>)\<close> is the
  call of \<open>beginGroup\<close>, and its result differs from the result of \<open>endGroup\<close>. So the
  group of the pattern \<open>(a)\<close> is never closed: the automaton compiled from it has no
  transition into the accepted state and rejects the input \<open>a\<close>.
\<close>

theorem close_paren_opens_group:
  "compileSymbol CHR '')'' (AutomatonBuilder_new Automaton_new) =
     beginGroup (AutomatonBuilder_new Automaton_new) \<and>
   compileSymbol CHR '')'' (AutomatonBuilder_new Automaton_new) \<noteq>
     endGroup (AutomatonBuilder_new Automaton_new) \<and>
   (\<exists>a. compile ''(a)'' Automaton_new = Inr a \<and> accept a ''a'' = Inr False)"
proof -
  let ?b0 = "AutomatonBuilder_new (Automaton_new :: char Automaton)"
  have 1: "compileSymbol CHR '')'' ?b0 = beginGroup ?b0"
    by (simp add: compileSymbol_def)
  have 2: "compileSymbol CHR '')'' ?b0 \<noteq> endGroup ?b0"
    by (simp add: compileSymbol_def beginGroup_def endGroup_def AutomatonBuilder_new_def
        Automaton_new_def createState_def Automaton_pushState_def addNextState_def
        frameRead_def maxNumGroups_def int8_def)
  obtain a where a: "build ''(a)'' Automaton_new = Inr a" and p: "prevStates (heap a ! 1) = []"
    by (simp add: build_def compileSymbol_def beginGroup_def pushState_def endGroup_def
        AutomatonBuilder_new_def Automaton_new_def createState_def Automaton_pushState_def
        addNextState_def frameRead_def frameWrite_def maxNumGroups_def int8_def newState_def
        linkStates_def)
  from build_wf [OF a] have wf: "wfAutomaton a" .
  from removeEpsilons_wf [OF wf, of "CHR 0x00" "''a''"] accepts_no_way_in [OF wf p]
  have "accept (removeEpsilons a) ''a'' = Inr False"
    by (simp add: accept_def)
  moreover from a have "compile ''(a)'' Automaton_new = Inr (removeEpsilons a)"
    by (simp add: compile_def)
  ultimately show ?thesis using 1 2 by blast
qed

end
